theory Spec2Isabelle
  imports Main "HOL-Library.Sublist" "HOL-Library.AList"
begin

section \<open>Strings\<close>

text \<open>
  A Python \<open>str\<close> is modelled as a \<^typ>\<open>string\<close>; a \<^typ>\<open>char\<close> stands for a code point
  below 256, and \<open>length\<close> is Python's \<open>len\<close>.  \<open>is_space\<close> is \<open>str.isspace\<close> (and the
  regular expression class \<open>\s\<close>) on that range: TAB, LF, VT, FF, CR, the separators
  0x1C..0x1F, the space, NEL (0x85) and the no-break space (0xA0).
\<close>

definition is_space :: "char \<Rightarrow> bool" where
  "is_space c = (of_char c \<in> {9, 10, 11, 12, 13, 28, 29, 30, 31, 32, 133, 160 :: nat})"

text \<open>\<open>s.strip()\<close>: leading and trailing whitespace removed.\<close>

definition strip :: "string \<Rightarrow> string" where
  "strip s = rev (dropWhile is_space (rev (dropWhile is_space s)))"

text \<open>\<open>s.split(sep)\<close> for a separator of one character: always at least one piece.\<close>

fun split_on :: "char \<Rightarrow> string \<Rightarrow> string list" where
  "split_on sep [] = [[]]"
| "split_on sep (c # cs) =
     (if c = sep then [] # split_on sep cs
      else (case split_on sep cs of
              [] \<Rightarrow> [[c]]
            | piece # pieces \<Rightarrow> (c # piece) # pieces))"

text \<open>\<open>sep.join(xs)\<close>.\<close>

fun join_with :: "string \<Rightarrow> string list \<Rightarrow> string" where
  "join_with sep [] = []"
| "join_with sep [x] = x"
| "join_with sep (x # y # ys) = x @ sep @ join_with sep (y # ys)"

section \<open>chunker.py\<close>

text \<open>\<open>approx_tokens\<close>: \<open>max(0, (len(text) + 3) // 4)\<close> on Python's unbounded integers.\<close>

definition approx_tokens :: "string \<Rightarrow> int" where
  "approx_tokens text = max 0 ((int (length text) + 3) div 4)"

subsection \<open>iter_sections\<close>

text \<open>
  \<open>header_pattern.match(line)\<close> for \<open>^(#{1,6})\s+(.+)$\<close> on one line of
  \<open>markdown.split("\n")\<close> (so the line holds no line feed).  The result is
  \<open>(len(m.group(1)), m.group(2))\<close>.  The run of \<open>#\<close> must have 1 to 6 characters and be
  followed by whitespace.  \<open>\s+\<close> is greedy: it takes the whole whitespace run, and group 2
  is the rest of the line; when nothing is left for \<open>.+\<close>, the matcher backtracks and
  \<open>\s+\<close> gives up its last character, which needs a run of at least two.
\<close>

definition parse_header :: "string \<Rightarrow> (nat \<times> string) option" where
  "parse_header line =
     (let hashes = takeWhile (\<lambda>c. c = CHR ''#'') line;
          rest = dropWhile (\<lambda>c. c = CHR ''#'') line;
          ws = takeWhile is_space rest;
          body = dropWhile is_space rest
      in if length hashes < 1 \<or> 6 < length hashes \<or> ws = [] then None
         else if body \<noteq> [] then Some (length hashes, body)
         else if 2 \<le> length ws then Some (length hashes, [last ws])
         else None)"

text \<open>
  The closure \<open>flush_section\<close>, with the variables it reads as arguments:
  \<open>current_path\<close> and \<open>current_section_lines\<close>.
\<close>

definition flush_section :: "(nat \<times> string) list \<Rightarrow> string list \<Rightarrow> (string \<times> string) option" where
  "flush_section current_path current_section_lines =
     (if current_section_lines = [] then None
      else let path_str = (if current_path \<noteq> [] then join_with '' > '' (map snd current_path) else []);
               text = strip (join_with [CHR 0x0A] current_section_lines)
           in if text = [] then None else Some (path_str, text))"

text \<open>\<open>while current_path and current_path[-1][0] >= level: current_path.pop()\<close>\<close>

function pop_path :: "(nat \<times> string) list \<Rightarrow> nat \<Rightarrow> (nat \<times> string) list" where
  "pop_path current_path level =
     (if current_path \<noteq> [] \<and> level \<le> fst (last current_path)
      then pop_path (butlast current_path) level
      else current_path)"
  by pat_completeness auto
termination
  by (relation "measure (\<lambda>(p, l). length p)") auto

declare pop_path.simps [simp del]

text \<open>
  The state of the loop over the lines: the header stack, the lines of the section being
  collected, and the sections yielded so far.
\<close>

record sections_state =
  current_path :: "(nat \<times> string) list"
  current_section_lines :: "string list"
  yielded :: "(string \<times> string) list"

definition emit :: "(string \<times> string) option \<Rightarrow> (string \<times> string) list \<Rightarrow> (string \<times> string) list" where
  "emit out ys = (case out of None \<Rightarrow> ys | Some sec \<Rightarrow> ys @ [sec])"

definition section_line :: "sections_state \<Rightarrow> string \<Rightarrow> sections_state" where
  "section_line st line =
     (case parse_header line of
        Some (level, group2) \<Rightarrow>
          \<lparr> current_path = pop_path (current_path st) level @ [(level, strip group2)],
            current_section_lines = [line],
            yielded = emit (flush_section (current_path st) (current_section_lines st)) (yielded st) \<rparr>
      | None \<Rightarrow> st \<lparr> current_section_lines := current_section_lines st @ [line] \<rparr>)"

definition sections_init :: sections_state where
  "sections_init = \<lparr> current_path = [], current_section_lines = [], yielded = [] \<rparr>"

definition iter_sections :: "string \<Rightarrow> (string \<times> string) list" where
  "iter_sections markdown =
     (let st = foldl section_line sections_init (split_on (CHR 0x0A) markdown)
      in emit (flush_section (current_path st) (current_section_lines st)) (yielded st))"

subsection \<open>split_to_token_windows\<close>

text \<open>
  \<open>re.split(r"\n\s*\n", text)\<close>.  A match starts at a line feed and needs another line
  feed inside the whitespace run that follows; \<open>\s*\<close> is greedy, so the match ends at the
  last line feed of that run.  \<open>blank_match rest\<close> is the number of characters the match
  takes after its first line feed.
\<close>

definition blank_match :: "string \<Rightarrow> nat option" where
  "blank_match rest =
     (let ws = takeWhile is_space rest
      in if CHR 0x0A \<in> set ws
         then Some (length ws - length (takeWhile (\<lambda>c. c \<noteq> CHR 0x0A) (rev ws)))
         else None)"

function re_split_par :: "string \<Rightarrow> string \<Rightarrow> string list" where
  "re_split_par piece [] = [piece]"
| "re_split_par piece (c # cs) =
     (if c = CHR 0x0A then
        (case blank_match cs of
           Some n \<Rightarrow> piece # re_split_par [] (drop n cs)
         | None \<Rightarrow> re_split_par (piece @ [c]) cs)
      else re_split_par (piece @ [c]) cs)"
  by pat_completeness auto
termination
  by (relation "measure (\<lambda>(p, s). length s)") auto

text \<open>
  The inner loop over \<open>reversed(current)\<close>: each paragraph is inserted at the front of
  \<open>overlap_paragraphs\<close>, and the loop breaks once \<open>overlap_so_far >= overlap_tokens\<close>.
\<close>

fun overlap_walk :: "int \<Rightarrow> string list \<Rightarrow> string list \<Rightarrow> int \<Rightarrow> string list" where
  "overlap_walk overlap_tokens [] overlap_paragraphs overlap_so_far = overlap_paragraphs"
| "overlap_walk overlap_tokens (p # ps) overlap_paragraphs overlap_so_far =
     (if overlap_tokens \<le> overlap_so_far + approx_tokens p then p # overlap_paragraphs
      else overlap_walk overlap_tokens ps (p # overlap_paragraphs) (overlap_so_far + approx_tokens p))"

definition overlap_seed :: "int \<Rightarrow> string list \<Rightarrow> string list" where
  "overlap_seed overlap_tokens current = overlap_walk overlap_tokens (rev current) [] 0"

text \<open>The state of the loop over the paragraphs.\<close>

record windows_state =
  windows :: "string list"
  current :: "string list"
  current_tokens :: int

text \<open>\<open>window_text = "\n\n".join(current).strip()\<close>, appended when it is not empty.\<close>

definition window_text :: "string list \<Rightarrow> string" where
  "window_text buf = strip (join_with [CHR 0x0A, CHR 0x0A] buf)"

definition append_window :: "string list \<Rightarrow> string list \<Rightarrow> string list" where
  "append_window buf ws = (if window_text buf \<noteq> [] then ws @ [window_text buf] else ws)"

definition window_para :: "int \<Rightarrow> int \<Rightarrow> windows_state \<Rightarrow> string \<Rightarrow> windows_state" where
  "window_para target_tokens overlap_tokens st para =
     (if strip para = [] then st
      else let pt = approx_tokens para;
               st1 = (if target_tokens < current_tokens st + pt \<and> current st \<noteq> []
                      then let seed = overlap_seed overlap_tokens (current st)
                           in \<lparr> windows = append_window (current st) (windows st),
                                current = seed,
                                current_tokens = sum_list (map approx_tokens seed) \<rparr>
                      else st)
           in st1 \<lparr> current := current st1 @ [para], current_tokens := current_tokens st1 + pt \<rparr>)"

definition windows_init :: windows_state where
  "windows_init = \<lparr> windows = [], current = [], current_tokens = 0 \<rparr>"

definition split_to_token_windows :: "string \<Rightarrow> int \<Rightarrow> int \<Rightarrow> string list" where
  "split_to_token_windows text target_tokens overlap_tokens =
     (if text = [] \<or> strip text = [] then []
      else if approx_tokens text \<le> target_tokens
      then (if strip text \<noteq> [] then [strip text] else [])
      else let paragraphs = re_split_par [] text;
               st = foldl (window_para target_tokens overlap_tokens) windows_init paragraphs
           in if current st \<noteq> [] then append_window (current st) (windows st) else windows st)"

subsection \<open>generate_chunks_jsonl\<close>

text \<open>One line of the JSONL file: \<open>{"id", "text", "meta": {"doc_id", "section"}}\<close>.\<close>

record chunk =
  chunk_id :: string
  chunk_text :: string
  meta_doc_id :: string
  meta_section :: string

text \<open>\<open>str(n)\<close> for a natural number, as the f-string \<open>f"{doc_id}_{chunk_index}"\<close> renders it.\<close>

function str_nat :: "nat \<Rightarrow> string" where
  "str_nat n = (if n < 10 then [char_of (48 + n)] else str_nat (n div 10) @ [char_of (48 + n mod 10)])"
  by pat_completeness auto
termination
  by (relation "measure id") auto

declare str_nat.simps [simp del]

text \<open>
  The body of the loops over the windows: a window that is blank is skipped, any other is
  written as a record and takes the next index.  The state is \<open>chunk_index\<close> and the lines
  written to \<open>f\<close>.
\<close>

definition write_window :: "string \<Rightarrow> string \<Rightarrow> nat \<times> chunk list \<Rightarrow> string \<Rightarrow> nat \<times> chunk list" where
  "write_window doc_id section_path acc w =
     (if strip w = [] then acc
      else (fst acc + 1,
            snd acc @ [\<lparr> chunk_id = doc_id @ ''_'' @ str_nat (fst acc),
                         chunk_text = strip w,
                         meta_doc_id = doc_id,
                         meta_section = section_path \<rparr>]))"

definition write_section :: "string \<Rightarrow> int \<Rightarrow> int \<Rightarrow> nat \<times> chunk list \<Rightarrow> string \<times> string \<Rightarrow> nat \<times> chunk list" where
  "write_section doc_id target_tokens overlap_tokens acc sec =
     foldl (write_window doc_id (fst sec)) acc
       (split_to_token_windows (snd sec) target_tokens overlap_tokens)"

text \<open>
  The file at \<open>document_md_path\<close> is the argument \<open>document\<close>: \<open>None\<close> when the path does
  not exist, its text otherwise.  The result is the count returned and the lines of the
  output file (\<open>None\<close> when the file is not opened).
\<close>

definition generate_chunks_jsonl :: "string option \<Rightarrow> string \<Rightarrow> int \<Rightarrow> int \<Rightarrow> nat \<times> chunk list option" where
  "generate_chunks_jsonl document doc_id target_tokens overlap_tokens =
     (case document of
        None \<Rightarrow> (0, None)
      | Some markdown \<Rightarrow>
          let acc = foldl (write_section doc_id target_tokens overlap_tokens) (0, [])
                      (iter_sections markdown);
              acc' = (if fst acc = 0 \<and> strip markdown \<noteq> []
                      then foldl (write_window doc_id []) acc
                             (split_to_token_windows markdown target_tokens overlap_tokens)
                      else acc)
          in (fst acc', Some (snd acc')))"

section \<open>utils.py\<close>

text \<open>
  \<open>Path(filename).name\<close> on a POSIX path: the last of the components between slashes,
  empty components and \<open>.\<close> dropped; the empty string when there is none.
\<close>

definition path_name :: "string \<Rightarrow> string" where
  "path_name filename =
     (case filter (\<lambda>x. x \<noteq> [] \<and> x \<noteq> ''.'') (split_on (CHR ''/'') filename) of
        [] \<Rightarrow> []
      | part # parts \<Rightarrow> last (part # parts))"

text \<open>\<open>s.rfind(c)\<close>: the index of the last occurrence, \<open>None\<close> for Python's \<open>-1\<close>.\<close>

definition rfind :: "char \<Rightarrow> string \<Rightarrow> nat option" where
  "rfind c s =
     (case dropWhile (\<lambda>x. x \<noteq> c) (rev s) of
        [] \<Rightarrow> None
      | _ # front \<Rightarrow> Some (length front))"

text \<open>
  \<open>Path(filename).stem\<close>, as pathlib defines it in CPython 3.11: with \<open>i = name.rfind(".")\<close>,
  the name up to \<open>i\<close> when \<open>0 < i < len(name) - 1\<close>, the whole name otherwise.
\<close>

definition path_stem :: "string \<Rightarrow> string" where
  "path_stem filename =
     (let name = path_name filename
      in case rfind (CHR ''.'') name of
           None \<Rightarrow> name
         | Some i \<Rightarrow> if 0 < i \<and> int i < int (length name) - 1 then take i name else name)"

text \<open>The character class \<open>[A-Za-z0-9._-]\<close>.\<close>

definition in_class :: "char \<Rightarrow> bool" where
  "in_class c =
     (let n = (of_char c :: nat)
      in (65 \<le> n \<and> n \<le> 90) \<or> (97 \<le> n \<and> n \<le> 122) \<or> (48 \<le> n \<and> n \<le> 57)
         \<or> c = CHR ''.'' \<or> c = CHR ''_'' \<or> c = CHR ''-'')"

text \<open>\<open>c.isalnum()\<close> for a code point below 256.\<close>

definition is_alnum :: "char \<Rightarrow> bool" where
  "is_alnum c =
     (let n = (of_char c :: nat)
      in (48 \<le> n \<and> n \<le> 57) \<or> (65 \<le> n \<and> n \<le> 90) \<or> (97 \<le> n \<and> n \<le> 122)
         \<or> n = 170 \<or> n = 178 \<or> n = 179 \<or> n = 181 \<or> n = 185 \<or> n = 186
         \<or> (188 \<le> n \<and> n \<le> 190) \<or> (192 \<le> n \<and> n \<le> 214) \<or> (216 \<le> n \<and> n \<le> 246)
         \<or> 248 \<le> n)"

text \<open>\<open>stem.replace(" ", "_")\<close>\<close>

definition replace_spaces :: "string \<Rightarrow> string" where
  "replace_spaces s = map (\<lambda>c. if c = CHR '' '' then CHR ''_'' else c) s"

text \<open>\<open>re.sub(r"[^A-Za-z0-9._-]", "_", s)\<close>: every character outside the class, one by one.\<close>

fun sub_outside_class :: "string \<Rightarrow> string" where
  "sub_outside_class [] = []"
| "sub_outside_class (c # cs) = (if in_class c then c else CHR ''_'') # sub_outside_class cs"

text \<open>
  \<open>re.sub(r"_+", "_", s)\<close>: scanning from the left, each match is a maximal run of
  underscores and is replaced by one underscore.
\<close>

function sub_underscores :: "string \<Rightarrow> string" where
  "sub_underscores [] = []"
| "sub_underscores (c # cs) =
     (if c = CHR ''_'' then CHR ''_'' # sub_underscores (dropWhile (\<lambda>x. x = CHR ''_'') cs)
      else c # sub_underscores cs)"
  by pat_completeness auto
termination
  by (relation "measure length") (auto simp: length_dropWhile_le less_Suc_eq_le)

text \<open>\<open>s.strip("_")\<close>\<close>

definition strip_underscores :: "string \<Rightarrow> string" where
  "strip_underscores s =
     rev (dropWhile (\<lambda>x. x = CHR ''_'') (rev (dropWhile (\<lambda>x. x = CHR ''_'') s)))"

definition MAX_STEM_LENGTH :: nat where
  "MAX_STEM_LENGTH = 80"

definition sanitize_stem :: "string \<Rightarrow> string" where
  "sanitize_stem filename =
     (let stem = strip (path_stem filename)
      in if stem = [] \<or> hd stem = CHR ''.'' then ''document''
         else let s = replace_spaces stem;
                  s = sub_outside_class s;
                  s = strip_underscores (sub_underscores s)
              in if s = [] \<or> \<not> (\<exists>c\<in>set s. is_alnum c) then ''document''
                 else take MAX_STEM_LENGTH s)"

section \<open>storage.py: serving an artifact\<close>

text \<open>
  The file system that pathlib consults.  A path is absolute and given by its components.
  A node is a regular file, a directory, or a symbolic link with an absolute target.
\<close>

type_synonym path = "string list"

datatype node = File | Dir | Symlink path

type_synonym filesystem = "path \<rightharpoonup> node"

datatype py_error = RuntimeError | OSError | HTTPException nat

text \<open>\<open>str(path)\<close>\<close>

definition path_str :: "path \<Rightarrow> string" where
  "path_str p = (if p = [] then ''/'' else concat (map (\<lambda>c. CHR ''/'' # c) p))"

text \<open>
  \<open>p / s\<close> for a string \<open>s\<close>: the components of \<open>s\<close> (empty ones and \<open>.\<close> dropped) are
  appended, and an \<open>s\<close> that starts with a slash replaces \<open>p\<close>.
\<close>

definition path_parts :: "string \<Rightarrow> path" where
  "path_parts s = filter (\<lambda>x. x \<noteq> [] \<and> x \<noteq> ''.'') (split_on (CHR ''/'') s)"

definition joinpath :: "path \<Rightarrow> string \<Rightarrow> path" where
  "joinpath p s = (if take 1 s = ''/'' then path_parts s else p @ path_parts s)"

text \<open>
  \<open>Path.resolve()\<close>: the components are walked from the root, \<open>..\<close> steps to the parent,
  a symbolic link is replaced by its target, and what does not exist is kept as it is.
  A loop of links makes \<open>resolve\<close> raise \<open>RuntimeError\<close> (\<open>None\<close> here); the walk
  bounds the number of links it follows by 40, so a chain of more than 40 links, loop or
  not, gives \<open>None\<close> as well.
\<close>

fun resolve_walk :: "filesystem \<Rightarrow> nat \<Rightarrow> path \<Rightarrow> path \<Rightarrow> path option" where
  "resolve_walk fs fuel seen [] = Some seen"
| "resolve_walk fs fuel seen (c # cs) =
     (if c = ''..'' then resolve_walk fs fuel (butlast seen) cs
      else (case fs (seen @ [c]) of
              Some (Symlink target) \<Rightarrow>
                (case fuel of
                   0 \<Rightarrow> None
                 | Suc fuel' \<Rightarrow> resolve_walk fs fuel' [] (target @ cs))
            | _ \<Rightarrow> resolve_walk fs fuel (seen @ [c]) cs))"

definition resolve :: "filesystem \<Rightarrow> path \<Rightarrow> path option" where
  "resolve fs p = resolve_walk fs 40 [] p"

text \<open>\<open>Path.exists()\<close> and \<open>Path.is_file()\<close> follow links; a loop counts as absent.\<close>

definition path_exists :: "filesystem \<Rightarrow> path \<Rightarrow> bool" where
  "path_exists fs p = (case resolve fs p of None \<Rightarrow> False | Some q \<Rightarrow> q = [] \<or> fs q \<noteq> None)"

definition is_file :: "filesystem \<Rightarrow> path \<Rightarrow> bool" where
  "is_file fs p = (case resolve fs p of None \<Rightarrow> False | Some q \<Rightarrow> fs q = Some File)"

text \<open>\<open>sub in s\<close> for strings.\<close>

fun contains :: "string \<Rightarrow> string \<Rightarrow> bool" where
  "contains sub [] = (sub = [])"
| "contains sub (c # cs) = (prefix sub (c # cs) \<or> contains sub cs)"

text \<open>
  \<open>get_artifact_path\<close>, with the file system and the constant \<open>OUTPUTS_DIR\<close> of the
  configuration as arguments.  \<open>Inl\<close> is an exception that leaves the function.
\<close>

definition get_artifact_path ::
    "filesystem \<Rightarrow> path \<Rightarrow> string \<Rightarrow> string \<Rightarrow> py_error + path option" where
  "get_artifact_path fs OUTPUTS_DIR job_id filename =
     (if filename = [] \<or> contains ''..'' filename \<or> contains ''/'' filename
         \<or> contains [CHR 0x5C] filename
      then Inr None
      else let od = joinpath OUTPUTS_DIR job_id
           in if \<not> path_exists fs od then Inr None
              else (case resolve fs (joinpath od filename) of
                      None \<Rightarrow> Inl RuntimeError
                    | Some p \<Rightarrow>
                        (case resolve fs od of
                           None \<Rightarrow> Inl RuntimeError
                         | Some od_resolved \<Rightarrow>
                             if \<not> prefix (path_str od_resolved) (path_str p) then Inr None
                             else if is_file fs p then Inr (Some p) else Inr None)))"

section \<open>routes_extract.py and the storage functions it calls\<close>

text \<open>Values of the open dictionaries (\<open>stats\<close>, the processing configuration).\<close>

datatype jvalue = JBool bool | JInt int | JStr string

text \<open>\<open>JobMetadata\<close> (models.py).\<close>

record job_metadata =
  m_job_id :: string
  m_filename :: string
  m_status :: string
  m_artifact_prefix :: "string option"
  m_artifacts :: "string list"
  m_stats :: "(string \<times> jvalue) list"
  m_error :: "string option"
  m_created_at :: "string option"

text \<open>
  What a regular file of a job's output directory holds: a metadata record that
  \<open>JobMetadata.model_validate\<close> accepts, a processing configuration, or anything else
  (documents, progress, a metadata file that does not parse).  A directory is the list of
  its regular files in the order \<open>iterdir\<close> gives them.
\<close>

datatype content = MetadataJson job_metadata | ConfigJson "(string \<times> jvalue) list" | OtherContent

type_synonym directory = "(string \<times> content) list"

text \<open>
  The data root: for each job id the regular files of \<open>UPLOADS_DIR / job_id\<close> and of
  \<open>OUTPUTS_DIR / job_id\<close> (\<open>None\<close> when the directory does not exist), and whether
  writing fails (\<open>disk_full\<close>), in which case \<open>write_text\<close> raises \<open>OSError\<close> and leaves
  the directory as it is, as on a file system that has become read-only (a disk without
  space may leave the file created or truncated before the write raises).  Creating a
  directory always succeeds.
\<close>

record files =
  uploads :: "string \<rightharpoonup> string list"
  outputs :: "string \<rightharpoonup> directory"
  disk_full :: bool

text \<open>What the supervising thread and the request handler do, in order (for the proofs).\<close>

datatype event =
    WorkerRun string
  | FallbackRun string
  | ConfigWritten string
  | MetadataWritten string string
  | GuardReleased string
  | ThreadStarted string

text \<open>
  The process of the service: the set \<open>_extracting\<close>, the supervising threads that are
  alive (with the arguments \<open>job_id\<close>, \<open>input_path.name\<close> and \<open>prefix\<close> they were started
  with), and the data root.
\<close>

record server =
  extracting :: "string set"
  threads :: "(string \<times> string \<times> string) list"
  disk :: files
  trace :: "event list"

subsection \<open>storage.py\<close>

definition job_output_dir :: "string \<Rightarrow> files \<Rightarrow> files" where
  "job_output_dir job_id fs =
     fs \<lparr> outputs := (outputs fs)(job_id \<mapsto> (case outputs fs job_id of None \<Rightarrow> [] | Some d \<Rightarrow> d)) \<rparr>"

definition get_uploaded_file_path :: "string \<Rightarrow> files \<Rightarrow> string option" where
  "get_uploaded_file_path job_id fs =
     (case uploads fs job_id of
        None \<Rightarrow> None
      | Some names \<Rightarrow> (case names of [] \<Rightarrow> None | f # _ \<Rightarrow> Some f))"

definition get_artifact_prefix :: "string \<Rightarrow> files \<Rightarrow> string" where
  "get_artifact_prefix job_id fs =
     (case get_uploaded_file_path job_id fs of None \<Rightarrow> ''document'' | Some name \<Rightarrow> sanitize_stem name)"

definition list_artifacts :: "string \<Rightarrow> files \<Rightarrow> string list" where
  "list_artifacts job_id fs =
     (case outputs fs job_id of
        None \<Rightarrow> []
      | Some d \<Rightarrow> filter (\<lambda>n. n \<noteq> ''progress.json'' \<and> n \<noteq> ''processing_request.json'') (map fst d))"

text \<open>\<open>(job_output_dir(job_id) / name).write_text(...)\<close>\<close>

definition write_text :: "string \<Rightarrow> string \<Rightarrow> content \<Rightarrow> files \<Rightarrow> py_error + files" where
  "write_text job_id name c fs =
     (let fs1 = job_output_dir job_id fs
      in if disk_full fs1 then Inl OSError
         else Inr (fs1 \<lparr> outputs := (outputs fs1)
                     (job_id \<mapsto> AList.update name c (case outputs fs1 job_id of None \<Rightarrow> [] | Some d \<Rightarrow> d)) \<rparr>))"

definition write_metadata ::
    "string \<Rightarrow> job_metadata \<Rightarrow> string option \<Rightarrow> server \<Rightarrow> (py_error + unit) \<times> server" where
  "write_metadata job_id metadata artifact_prefix srv =
     (let prefix = (case artifact_prefix of Some p \<Rightarrow> p | None \<Rightarrow> get_artifact_prefix job_id (disk srv))
      in case write_text job_id (prefix @ ''.metadata.json'') (MetadataJson metadata) (disk srv) of
           Inl e \<Rightarrow> (Inl e, srv \<lparr> disk := job_output_dir job_id (disk srv) \<rparr>)
         | Inr fs \<Rightarrow>
             (Inr (), srv \<lparr> disk := fs, trace := trace srv @ [MetadataWritten job_id (m_status metadata)] \<rparr>))"

definition read_metadata :: "string \<Rightarrow> files \<Rightarrow> job_metadata option \<times> files" where
  "read_metadata job_id fs =
     (let fs1 = job_output_dir job_id fs;
          od = (case outputs fs1 job_id of None \<Rightarrow> [] | Some d \<Rightarrow> d)
      in case find (\<lambda>f. suffix ''.metadata.json'' (fst f) \<or> suffix ''.meta.json'' (fst f)
                          \<or> fst f = ''metadata.json'') od of
           None \<Rightarrow> (None, fs1)
         | Some f \<Rightarrow> (case snd f of MetadataJson m \<Rightarrow> (Some m, fs1) | _ \<Rightarrow> (None, fs1)))"

subsection \<open>docling_runner.py: the fallback\<close>

text \<open>
  \<open>try_placeholder_fallback\<close>: \<open>_placeholder_extract\<close> creates the output directory and
  writes \<open><prefix>.document.md\<close> and \<open><prefix>.document_structured.json\<close>; reading the
  input never raises (every error of the read becomes the text written).  Any exception
  of the writes is caught and gives \<open>False\<close>.
\<close>

definition try_placeholder_fallback :: "string \<Rightarrow> string \<Rightarrow> files \<Rightarrow> bool \<times> files" where
  "try_placeholder_fallback job_id artifact_prefix fs =
     (let prefix = (if artifact_prefix \<noteq> [] then artifact_prefix else ''document'')
      in case write_text job_id (prefix @ ''.document.md'') OtherContent fs of
           Inl e \<Rightarrow> (False, job_output_dir job_id fs)
         | Inr fs1 \<Rightarrow>
             (case write_text job_id (prefix @ ''.document_structured.json'') OtherContent fs1 of
                Inl e \<Rightarrow> (False, fs1)
              | Inr fs2 \<Rightarrow> (True, fs2)))"

subsection \<open>routes_extract.py\<close>

text \<open>
  What \<open>_run_extract_subprocess\<close> gives: the exit code of the worker, or the exception of
  \<open>subprocess.run\<close> (\<open>TimeoutExpired\<close> after 1800 seconds, or any other, with its text).
  The worker is another process: it is a function on the data root, an argument of the
  model.
\<close>

datatype worker_outcome = Exited int | TimeoutExpired | Raised string

type_synonym worker = "files \<Rightarrow> worker_outcome \<times> files"

definition discard :: "string \<Rightarrow> server \<Rightarrow> server" where
  "discard job_id srv =
     srv \<lparr> extracting := extracting srv - {job_id}, trace := trace srv @ [GuardReleased job_id] \<rparr>"

text \<open>
  The two \<open>except\<close> blocks of \<open>_run_extraction_background\<close> have the same text but for
  the error string (\<open>"Extraction timed out"\<close>, \<open>str(e)\<close>), the argument \<open>message\<close> here.
\<close>

definition except_block :: "string \<Rightarrow> string \<Rightarrow> string \<Rightarrow> string \<Rightarrow> server \<Rightarrow> (py_error + unit) \<times> server" where
  "except_block job_id input_name prefix' message srv =
     (let fb = try_placeholder_fallback job_id prefix' (disk srv);
          srv1 = srv \<lparr> disk := snd fb, trace := trace srv @ [FallbackRun job_id] \<rparr>;
          metadata =
            (if fst fb
             then \<lparr> m_job_id = job_id, m_filename = input_name, m_status = ''completed'',
                    m_artifact_prefix = Some prefix', m_artifacts = list_artifacts job_id (disk srv1),
                    m_stats = [(''fallback'', JBool True), (''num_chunks'', JInt 0)],
                    m_error = None, m_created_at = None \<rparr>
             else \<lparr> m_job_id = job_id, m_filename = input_name, m_status = ''failed'',
                    m_artifact_prefix = Some prefix', m_artifacts = list_artifacts job_id (disk srv1),
                    m_stats = [], m_error = Some message, m_created_at = None \<rparr>)
      in case write_metadata job_id metadata (Some prefix') srv1 of
           (Inl e, srv2) \<Rightarrow> (Inl e, srv2)
         | (Inr _, srv2) \<Rightarrow> (Inr (), discard job_id srv2))"

definition has_document :: "string \<Rightarrow> files \<Rightarrow> bool" where
  "has_document job_id fs =
     (case outputs fs job_id of
        None \<Rightarrow> False
      | Some d \<Rightarrow> list_ex (\<lambda>f. suffix ''.document.md'' (fst f)
                              \<or> suffix ''.document_structured.json'' (fst f)) d)"

definition run_extraction_background ::
    "worker \<Rightarrow> string \<Rightarrow> string \<Rightarrow> string \<Rightarrow> server \<Rightarrow> (py_error + unit) \<times> server" where
  "run_extraction_background run_extract_subprocess job_id input_name prefix' srv =
     (let run = run_extract_subprocess (disk srv);
          srv1 = srv \<lparr> disk := snd run, trace := trace srv @ [WorkerRun job_id] \<rparr>
      in case fst run of
           TimeoutExpired \<Rightarrow> except_block job_id input_name prefix' ''Extraction timed out'' srv1
         | Raised e \<Rightarrow> except_block job_id input_name prefix' e srv1
         | Exited exit_code \<Rightarrow>
             (let artifacts = list_artifacts job_id (disk srv1);
                  rd = read_metadata job_id (disk srv1);
                  written = fst rd;
                  srv2 = srv1 \<lparr> disk := snd rd \<rparr>;
                  has_output = (has_document job_id (disk srv2) \<or> written \<noteq> None)
              in if has_output then
                   (case written of
                      Some meta \<Rightarrow> (Inr (), discard job_id srv2)
                    | None \<Rightarrow>
                        (case write_metadata job_id
                                \<lparr> m_job_id = job_id, m_filename = input_name, m_status = ''completed'',
                                  m_artifact_prefix = Some prefix', m_artifacts = artifacts,
                                  m_stats = [], m_error = None, m_created_at = None \<rparr>
                                (Some prefix') srv2 of
                           (Inl e, srv3) \<Rightarrow> (Inl e, srv3)
                         | (Inr _, srv3) \<Rightarrow> (Inr (), discard job_id srv3)))
                 else
                   (case write_metadata job_id
                           \<lparr> m_job_id = job_id, m_filename = input_name, m_status = ''failed'',
                             m_artifact_prefix = Some prefix', m_artifacts = artifacts,
                             m_stats = [],
                             m_error = Some ''Extraction failed. Check docker logs Docling for details.'',
                             m_created_at = None \<rparr>
                           (Some prefix') srv2 of
                      (Inl e, srv3) \<Rightarrow> (Inl e, srv3)
                    | (Inr _, srv3) \<Rightarrow> (Inr (), discard job_id srv3))))"

text \<open>\<open>ExtractionSummary(job_id, success, message, artifacts)\<close>\<close>

datatype response = ExtractionSummary string bool string "string list"

text \<open>
  \<open>extract_job\<close>.  The body of \<open>with _extracting_lock\<close> is one step: the test and the
  insertion are not interleaved with any other thread.  \<open>body\<close> is the processing
  configuration of the request, when it has one.
\<close>

definition extract_job ::
    "string \<Rightarrow> (string \<times> jvalue) list option \<Rightarrow> server \<Rightarrow> (py_error + response) \<times> server" where
  "extract_job job_id body srv =
     (case get_uploaded_file_path job_id (disk srv) of
        None \<Rightarrow> (Inl (HTTPException 404), srv)
      | Some input_name \<Rightarrow>
          (let srv1 = srv \<lparr> disk := job_output_dir job_id (disk srv) \<rparr>;
               prefix' = sanitize_stem input_name
           in if job_id \<in> extracting srv1
              then (Inr (ExtractionSummary job_id True
                           ''Extraction already in progress. Poll /job/{id}/progress for status.'' []),
                    srv1)
              else
                (let srv2 = srv1 \<lparr> extracting := insert job_id (extracting srv1) \<rparr>;
                     config_data = (case body of None \<Rightarrow> [] | Some pc \<Rightarrow> pc)
                 in case write_text job_id ''processing_request.json'' (ConfigJson config_data) (disk srv2) of
                      Inl e \<Rightarrow> (Inl e, srv2)
                    | Inr fs \<Rightarrow>
                        (let srv3 = srv2 \<lparr> disk := fs, trace := trace srv2 @ [ConfigWritten job_id] \<rparr>
                         in case write_metadata job_id
                                   \<lparr> m_job_id = job_id, m_filename = input_name, m_status = ''extracting'',
                                     m_artifact_prefix = Some prefix', m_artifacts = [],
                                     m_stats = [], m_error = None, m_created_at = None \<rparr>
                                   (Some prefix') srv3 of
                              (Inl e, srv4) \<Rightarrow> (Inl e, srv4)
                            | (Inr _, srv4) \<Rightarrow>
                                (Inr (ExtractionSummary job_id True
                                        ''Extraction started. Poll GET /job/{id} and GET /job/{id}/progress for status.'' []),
                                 srv4 \<lparr> threads := threads srv4 @ [(job_id, input_name, prefix')],
                                        trace := trace srv4 @ [ThreadStarted job_id] \<rparr>)))))"

section \<open>Auxiliary notions for the proofs\<close>

text \<open>
  The buffers that \<open>split_to_token_windows\<close> emits, in order: the value of \<open>current\<close>
  each time the loop over the paragraphs emits a window, and at the final flush.  The
  function follows the loop of the source step for step and only records.
\<close>

fun emitted_buffers :: "int \<Rightarrow> int \<Rightarrow> windows_state \<Rightarrow> string list \<Rightarrow> string list list" where
  "emitted_buffers target_tokens overlap_tokens st [] = (if current st \<noteq> [] then [current st] else [])"
| "emitted_buffers target_tokens overlap_tokens st (para # paras) =
     (if strip para \<noteq> [] \<and> target_tokens < current_tokens st + approx_tokens para \<and> current st \<noteq> []
      then [current st] else [])
     @ emitted_buffers target_tokens overlap_tokens (window_para target_tokens overlap_tokens st para) paras"

text \<open>The sum of the token estimates of the paragraphs of a buffer.\<close>

definition tally :: "string list \<Rightarrow> int" where
  "tally buf = sum_list (map approx_tokens buf)"

text \<open>
  A buffer follows the buffer \<open>prev\<close> emitted before it (\<open>[]\<close> for the first buffer): it
  starts with the overlap seed of \<open>prev\<close>, at least one new paragraph follows, and either
  its tally is within the target or exactly one new paragraph follows the seed.
\<close>

definition follows :: "int \<Rightarrow> int \<Rightarrow> string list \<Rightarrow> string list \<Rightarrow> bool" where
  "follows target_tokens overlap_tokens prev buf =
     (\<exists>new. buf = overlap_seed overlap_tokens prev @ new \<and> new \<noteq> []
            \<and> (tally buf \<le> target_tokens \<or> length new = 1))"

fun budget_chain :: "int \<Rightarrow> int \<Rightarrow> string list \<Rightarrow> string list list \<Rightarrow> bool" where
  "budget_chain target_tokens overlap_tokens prev [] = True"
| "budget_chain target_tokens overlap_tokens prev (buf # bufs) =
     (follows target_tokens overlap_tokens prev buf \<and> budget_chain target_tokens overlap_tokens buf bufs)"

text \<open>
  The invariant of the loop over the paragraphs, \<open>prev\<close> being the buffer emitted last
  (\<open>[]\<close> before the first emission).
\<close>

definition loop_inv :: "int \<Rightarrow> int \<Rightarrow> string list \<Rightarrow> windows_state \<Rightarrow> bool" where
  "loop_inv t ov prev st \<longleftrightarrow>
     current_tokens st = tally (current st)
     \<and> (\<forall>p\<in>set (current st). strip p \<noteq> [])
     \<and> (\<forall>p\<in>set prev. strip p \<noteq> [])
     \<and> (current st = [] \<and> prev = [] \<or> follows t ov prev (current st))"

text \<open>The flush after the loop.\<close>

definition flush_windows :: "windows_state \<Rightarrow> string list" where
  "flush_windows st = (if current st \<noteq> [] then append_window (current st) (windows st) else windows st)"

text \<open>A string that holds a character that is not whitespace.\<close>

definition nonblank :: "string \<Rightarrow> bool" where
  "nonblank s \<longleftrightarrow> (\<exists>c\<in>set s. \<not> is_space c)"

text \<open>
  A state of the loop of \<open>iter_sections\<close> from which at least one section is yielded:
  one has been yielded already, or the buffer holds a line that is not blank.
\<close>

definition has_content :: "sections_state \<Rightarrow> bool" where
  "has_content st \<longleftrightarrow> yielded st \<noteq> [] \<or> (\<exists>l\<in>set (current_section_lines st). nonblank l)"

text \<open>
  The output directory of the job \<open>job-1\<close> holds a regular file and a symbolic link to a
  file of the job \<open>job-10\<close>.
\<close>

definition linked_fs :: filesystem where
  "linked_fs = map_of
     [([''data''], Dir),
      ([''data'', ''outputs''], Dir),
      ([''data'', ''outputs'', ''job-1''], Dir),
      ([''data'', ''outputs'', ''job-1'', ''a.document.md''], File),
      ([''data'', ''outputs'', ''job-1'', ''latest.md''],
         Symlink [''data'', ''outputs'', ''job-10'', ''b.document.md'']),
      ([''data'', ''outputs'', ''job-10''], Dir),
      ([''data'', ''outputs'', ''job-10'', ''b.document.md''], File)]"

text \<open>
  The steps of the service as a whole: a request for extraction, the end of the run of a
  supervising thread (the thread at a position of the list of threads, with the behaviour
  of its worker process), and any change of the data root by something else (an upload,
  the cleaning of the storage, the disk filling up).
\<close>

datatype action =
    Request string "(string \<times> jvalue) list option"
  | ThreadEnds nat worker
  | DiskChange "files \<Rightarrow> files"

definition sys_step :: "server \<Rightarrow> action \<Rightarrow> server" where
  "sys_step srv a =
     (case a of
        Request job_id body \<Rightarrow> snd (extract_job job_id body srv)
      | ThreadEnds i w \<Rightarrow>
          if i < length (threads srv)
          then (case threads srv ! i of
                  (job_id, input_name, prefix') \<Rightarrow>
                    snd (run_extraction_background w job_id input_name prefix'
                           (srv \<lparr> threads := take i (threads srv) @ drop (Suc i) (threads srv) \<rparr>)))
          else srv
      | DiskChange f \<Rightarrow> srv \<lparr> disk := f (disk srv) \<rparr>)"

text \<open>Every thread alive has its job in the guard, and no job has two threads.\<close>

definition guard_inv :: "server \<Rightarrow> bool" where
  "guard_inv srv \<longleftrightarrow>
     distinct (map fst (threads srv)) \<and> fst ` set (threads srv) \<subseteq> extracting srv"

text \<open>
  The job \<open>j1\<close> with the upload \<open>report.txt\<close>, after \<open>extract_job\<close> has started its
  thread: the output directory holds the processing configuration and the metadata with
  status \<open>extracting\<close>.
\<close>

definition started_disk :: "bool \<Rightarrow> files" where
  "started_disk full =
     \<lparr> uploads = [''j1'' \<mapsto> [''report.txt'']],
       outputs = [''j1'' \<mapsto>
         [(''processing_request.json'', ConfigJson []),
          (''report.metadata.json'',
             MetadataJson \<lparr> m_job_id = ''j1'', m_filename = ''report.txt'', m_status = ''extracting'',
                            m_artifact_prefix = Some ''report'', m_artifacts = [], m_stats = [],
                            m_error = None, m_created_at = None \<rparr>)]],
       disk_full = full \<rparr>"

definition started_server :: "bool \<Rightarrow> server" where
  "started_server full =
     \<lparr> extracting = {''j1''}, threads = [(''j1'', ''report.txt'', ''report'')],
       disk = started_disk full, trace = [] \<rparr>"

text \<open>The service before any request: the job \<open>j1\<close> has its upload only.\<close>

definition idle_server :: server where
  "idle_server =
     \<lparr> extracting = {}, threads = [],
       disk = \<lparr> uploads = [''j1'' \<mapsto> [''report.txt'']], outputs = Map.empty, disk_full = False \<rparr>,
       trace = [] \<rparr>"

text \<open>
  The service while the thread of \<open>j1\<close> runs, after the storage has been cleaned
  (\<open>clean_storage\<close> removes every upload and every output directory).
\<close>

definition cleaned_server :: server where
  "cleaned_server =
     \<lparr> extracting = {''j1''}, threads = [(''j1'', ''report.txt'', ''report'')],
       disk = \<lparr> uploads = Map.empty, outputs = Map.empty, disk_full = False \<rparr>,
       trace = [] \<rparr>"

section \<open>The artifact prefix as the specification words it\<close>

text \<open>
  The prefix as the specification describes it: the extension is stripped, whitespace is
  replaced with underscores, only \<open>[A-Za-z0-9._-]\<close> is kept (any other character becomes
  an underscore, as the comment in the source reads the same words), repeated underscores
  are collapsed, the result is truncated to 80 characters, and an empty or
  all-punctuation result maps to \<open>document\<close>.
\<close>

fun collapse_repeated :: "string \<Rightarrow> string" where
  "collapse_repeated [] = []"
| "collapse_repeated [c] = [c]"
| "collapse_repeated (c # d # cs) =
     (if c = CHR ''_'' \<and> d = CHR ''_'' then collapse_repeated (d # cs)
      else c # collapse_repeated (d # cs))"

definition keep_class :: "string \<Rightarrow> string" where
  "keep_class s = map (\<lambda>c. if in_class c then c else CHR ''_'') s"

definition sanitize_stem_spec :: "string \<Rightarrow> string" where
  "sanitize_stem_spec filename =
     (let s = path_stem filename;
          s = map (\<lambda>c. if is_space c then CHR ''_'' else c) s;
          s = keep_class s;
          s = collapse_repeated s;
          s = take 80 s
      in if s = [] \<or> \<not> (\<exists>c\<in>set s. is_alnum c) then ''document'' else s)"

text \<open>
  The same with what the source adds: the stem is trimmed of surrounding whitespace, a stem
  that is empty or starts with a dot maps to \<open>document\<close>, leading and trailing underscores
  are removed after the collapse, and the test for an empty or all-punctuation result
  comes before the truncation.
\<close>

definition trim_underscores :: "string \<Rightarrow> string" where
  "trim_underscores s =
     rev (dropWhile (\<lambda>x. x = CHR ''_'') (rev (dropWhile (\<lambda>x. x = CHR ''_'') s)))"

definition sanitize_stem_amended :: "string \<Rightarrow> string" where
  "sanitize_stem_amended filename =
     (let stem = strip (path_stem filename)
      in if stem = [] \<or> take 1 stem = ''.'' then ''document''
         else let s = trim_underscores (collapse_repeated (keep_class stem))
              in if s = [] \<or> \<not> (\<exists>c\<in>set s. is_alnum c) then ''document'' else take 80 s)"

section \<open>Facts about the string primitives\<close>

lemma strip_Nil_iff: "strip s = [] \<longleftrightarrow> (\<forall>c\<in>set s. is_space c)"
proof
  assume "strip s = []"
  then have "\<forall>c\<in>set (dropWhile is_space s). is_space c"
    by (simp add: strip_def)
  then have "dropWhile is_space s = []"
    by (metis hd_dropWhile list.set_sel(1))
  then show "\<forall>c\<in>set s. is_space c"
    by simp
next
  assume "\<forall>c\<in>set s. is_space c"
  then show "strip s = []"
    by (auto simp: strip_def dest: set_dropWhileD)
qed

lemma strip_nonblank: "strip s \<noteq> [] \<Longrightarrow> \<exists>c\<in>set (strip s). \<not> is_space c"
proof -
  assume ne: "strip s \<noteq> []"
  let ?d = "dropWhile is_space (rev (dropWhile is_space s))"
  from ne have "?d \<noteq> []" by (simp add: strip_def)
  then have "\<not> is_space (hd ?d)" and "hd ?d \<in> set ?d"
    by (simp_all add: hd_dropWhile)
  then show ?thesis
    unfolding strip_def by (metis set_rev)
qed

lemma strip_strip_nonblank: "strip s \<noteq> [] \<Longrightarrow> strip (strip s) \<noteq> []"
  using strip_nonblank [of s] by (simp add: strip_Nil_iff)

lemma length_strip_le: "length (strip s) \<le> length s"
proof -
  have "length (strip s) \<le> length (dropWhile is_space s)"
    unfolding strip_def by (metis length_dropWhile_le length_rev)
  also have "\<dots> \<le> length s" by (rule length_dropWhile_le)
  finally show ?thesis .
qed

lemma approx_tokens_strip_le: "approx_tokens (strip s) \<le> approx_tokens s"
  using length_strip_le [of s] by (simp add: approx_tokens_def)

lemma set_join_with: "x \<in> set xs \<Longrightarrow> set x \<subseteq> set (join_with sep xs)"
  by (induction sep xs rule: join_with.induct) auto

lemma strip_Nil [simp]: "strip [] = []"
  by (simp add: strip_def)

section \<open>Facts about the token windower\<close>

lemma window_text_nonblank:
  assumes "buf \<noteq> []" and "\<forall>p\<in>set buf. strip p \<noteq> []"
  shows "window_text buf \<noteq> []"
proof -
  from assms obtain p where p: "p \<in> set buf" "strip p \<noteq> []"
    by (cases buf) auto
  then obtain c where "c \<in> set p" "\<not> is_space c"
    by (auto simp: strip_Nil_iff)
  with p set_join_with [of p buf] have "\<exists>c\<in>set (join_with [CHR 0x0A, CHR 0x0A] buf). \<not> is_space c"
    by blast
  then show ?thesis
    by (simp add: window_text_def strip_Nil_iff)
qed

lemma length_join_with:
  "xs \<noteq> [] \<Longrightarrow> int (length (join_with sep xs)) = (\<Sum>x\<leftarrow>xs. int (length x)) + int (length sep) * (int (length xs) - 1)"
  by (induction sep xs rule: join_with.induct) (auto simp: algebra_simps)

lemma approx_tokens_pos: "strip p \<noteq> [] \<Longrightarrow> 1 \<le> approx_tokens p"
proof -
  assume "strip p \<noteq> []"
  then have "p \<noteq> []" by (auto simp: strip_Nil_iff)
  then have "1 \<le> length p" by (cases p) auto
  then show ?thesis by (simp add: approx_tokens_def)
qed

lemma length_le_tally: "\<forall>p\<in>set buf. strip p \<noteq> [] \<Longrightarrow> int (length buf) \<le> tally buf"
proof (induction buf)
  case Nil
  show ?case by (simp add: tally_def)
next
  case (Cons p buf)
  then show ?case using approx_tokens_pos [of p] by (simp add: tally_def)
qed

lemma sum_length_le_tally: "(\<Sum>x\<leftarrow>buf. int (length x)) \<le> 4 * tally buf"
proof (induction buf)
  case Nil
  show ?case by (simp add: tally_def)
next
  case (Cons p buf)
  have "int (length p) \<le> 4 * approx_tokens p" by (simp add: approx_tokens_def)
  with Cons show ?case by (simp add: tally_def)
qed

lemma window_text_tokens:
  assumes "buf \<noteq> []" and "\<forall>p\<in>set buf. strip p \<noteq> []"
  shows "approx_tokens (window_text buf) \<le> tally buf + tally buf div 2"
proof -
  let ?j = "join_with [CHR 0x0A, CHR 0x0A] buf"
  have "int (length ?j) = (\<Sum>x\<leftarrow>buf. int (length x)) + 2 * (int (length buf) - 1)"
    using assms(1) by (simp add: length_join_with)
  also have "\<dots> \<le> 4 * tally buf + 2 * (tally buf - 1)"
  proof -
    have a: "(\<Sum>x\<leftarrow>buf. int (length x)) \<le> 4 * tally buf" by (rule sum_length_le_tally)
    have b: "int (length buf) \<le> tally buf" by (rule length_le_tally [OF assms(2)])
    from a b show ?thesis by (intro add_mono) simp_all
  qed
  finally have len: "int (length ?j) \<le> 6 * tally buf - 2" by simp
  have "approx_tokens (window_text buf) \<le> approx_tokens ?j"
    unfolding window_text_def by (rule approx_tokens_strip_le)
  also have "\<dots> \<le> tally buf + tally buf div 2"
    using len by (simp add: approx_tokens_def)
  finally show ?thesis .
qed

lemma tally_simps [simp]:
  "tally [] = 0" "tally (p # ps) = approx_tokens p + tally ps" "tally (xs @ ys) = tally xs + tally ys"
  "tally (rev xs) = tally xs"
  by (simp_all add: tally_def sum_list_rev flip: rev_map)

lemma approx_tokens_nonneg: "0 \<le> approx_tokens p"
  by (simp add: approx_tokens_def)

lemma overlap_walk_shape:
  "\<exists>taken rest. rs = taken @ rest
      \<and> overlap_walk ov rs acc sofar = rev taken @ acc
      \<and> (rs \<noteq> [] \<longrightarrow> taken \<noteq> [])
      \<and> (rest = [] \<or> ov \<le> sofar + tally taken)
      \<and> (butlast taken \<noteq> [] \<longrightarrow> sofar + tally (butlast taken) < ov)"
proof (induction rs arbitrary: acc sofar)
  case Nil
  show ?case by simp
next
  case (Cons p ps)
  show ?case
  proof (cases "ov \<le> sofar + approx_tokens p")
    case True
    then have "p # ps = [p] @ ps \<and> overlap_walk ov (p # ps) acc sofar = rev [p] @ acc
        \<and> (ps = [] \<or> ov \<le> sofar + tally [p])"
      by simp
    then show ?thesis
      by (intro exI [of _ "[p]"] exI [of _ ps]) simp
  next
    case False
    from Cons.IH [of "p # acc" "sofar + approx_tokens p"]
    obtain taken rest where tr: "ps = taken @ rest"
      "overlap_walk ov ps (p # acc) (sofar + approx_tokens p) = rev taken @ p # acc"
      "ps \<noteq> [] \<longrightarrow> taken \<noteq> []"
      "rest = [] \<or> ov \<le> sofar + approx_tokens p + tally taken"
      "butlast taken \<noteq> [] \<longrightarrow> sofar + approx_tokens p + tally (butlast taken) < ov"
      by auto
    have "butlast (p # taken) \<noteq> [] \<longrightarrow> sofar + tally (butlast (p # taken)) < ov"
    proof (cases "butlast taken = []")
      case True
      with False show ?thesis by (cases taken) auto
    next
      case False
      with tr(5) show ?thesis by (cases taken) (auto simp: add.assoc)
    qed
    with tr False show ?thesis
      by (intro exI [of _ "p # taken"] exI [of _ rest]) (simp add: add.assoc)
  qed
qed

lemma overlap_seed_Nil [simp]: "overlap_seed ov [] = []"
  by (simp add: overlap_seed_def)

text \<open>The overlap seed: the shortest non-empty suffix of the buffer whose tally reaches
  the overlap, and the whole buffer when none does.\<close>

lemma overlap_seed_shape:
  "suffix (overlap_seed ov buf) buf
   \<and> (buf \<noteq> [] \<longrightarrow> overlap_seed ov buf \<noteq> [])
   \<and> (overlap_seed ov buf = buf \<or> ov \<le> tally (overlap_seed ov buf))
   \<and> (tl (overlap_seed ov buf) \<noteq> [] \<longrightarrow> tally (tl (overlap_seed ov buf)) < ov)"
proof -
  from overlap_walk_shape [of "rev buf" ov "[]" 0]
  obtain taken rest where rb: "rev buf = taken @ rest"
    and w: "overlap_walk ov (rev buf) [] 0 = rev taken @ []"
    and ne: "rev buf \<noteq> [] \<longrightarrow> taken \<noteq> []"
    and reach: "rest = [] \<or> ov \<le> 0 + tally taken"
    and short: "butlast taken \<noteq> [] \<longrightarrow> 0 + tally (butlast taken) < ov"
    by blast
  have seed: "overlap_seed ov buf = rev taken"
    using w by (simp add: overlap_seed_def)
  from rb have "rev (rev buf) = rev (taken @ rest)" by simp
  then have buf: "buf = rev rest @ rev taken" by simp
  have tl: "tl (rev taken) = rev (butlast taken)"
    by (cases taken rule: rev_cases) simp_all
  have 1: "suffix (overlap_seed ov buf) buf"
    unfolding seed by (subst buf) (simp add: suffix_def)
  have 2: "buf \<noteq> [] \<longrightarrow> overlap_seed ov buf \<noteq> []"
    using ne by (simp add: seed)
  have 3: "overlap_seed ov buf = buf \<or> ov \<le> tally (overlap_seed ov buf)"
  proof (cases "rest = []")
    case True
    with buf have "buf = rev taken" by simp
    with seed show ?thesis by simp
  next
    case False
    with reach have "ov \<le> tally (rev taken)" by simp
    with seed show ?thesis by simp
  qed
  have 4: "tl (overlap_seed ov buf) \<noteq> [] \<longrightarrow> tally (tl (overlap_seed ov buf)) < ov"
    using short by (simp add: seed tl)
  from 1 2 3 4 show ?thesis by blast
qed

lemma set_overlap_seed: "set (overlap_seed ov buf) \<subseteq> set buf"
proof -
  have "suffix (overlap_seed ov buf) buf"
    using overlap_seed_shape [of ov buf] by blast
  then show ?thesis by (rule set_mono_suffix)
qed

text \<open>What one step of the loop does to \<open>current\<close>, \<open>current_tokens\<close> and \<open>windows\<close>.\<close>

lemma window_para_blank: "strip para = [] \<Longrightarrow> window_para t ov st para = st"
  by (simp add: window_para_def)

lemma window_para_emit:
  assumes "strip para \<noteq> []" "t < current_tokens st + approx_tokens para" "current st \<noteq> []"
  shows "window_para t ov st para =
           \<lparr> windows = append_window (current st) (windows st),
             current = overlap_seed ov (current st) @ [para],
             current_tokens = tally (overlap_seed ov (current st)) + approx_tokens para \<rparr>"
  using assms by (simp add: window_para_def Let_def tally_def)

lemma window_para_keep:
  assumes "strip para \<noteq> []" "\<not> (t < current_tokens st + approx_tokens para \<and> current st \<noteq> [])"
  shows "window_para t ov st para =
           st \<lparr> current := current st @ [para], current_tokens := current_tokens st + approx_tokens para \<rparr>"
  using assms by (auto simp: window_para_def Let_def)

lemma follows_nonempty: "follows t ov prev buf \<Longrightarrow> buf \<noteq> []"
  by (auto simp: follows_def)

lemma loop_inv_init: "loop_inv t ov [] windows_init"
  by (simp add: loop_inv_def windows_init_def)

lemma loop_inv_emit:
  assumes inv: "loop_inv t ov prev st"
    and "strip para \<noteq> []" "t < current_tokens st + approx_tokens para" "current st \<noteq> []"
  shows "loop_inv t ov (current st) (window_para t ov st para)"
proof -
  have "\<forall>p\<in>set (overlap_seed ov (current st)). strip p \<noteq> []"
    using inv set_overlap_seed [of ov "current st"] by (auto simp: loop_inv_def)
  moreover have "follows t ov (current st) (overlap_seed ov (current st) @ [para])"
    by (simp add: follows_def)
  ultimately show ?thesis
    using assms by (simp add: window_para_emit loop_inv_def)
qed

lemma loop_inv_keep:
  assumes inv: "loop_inv t ov prev st"
    and para: "strip para \<noteq> []"
    and keep: "\<not> (t < current_tokens st + approx_tokens para \<and> current st \<noteq> [])"
  shows "loop_inv t ov prev (window_para t ov st para)"
proof -
  have "follows t ov prev (current st @ [para])"
  proof (cases "current st = []")
    case True
    with inv have "prev = []" by (auto simp: loop_inv_def dest: follows_nonempty)
    with True show ?thesis by (simp add: follows_def)
  next
    case False
    with inv obtain new where new: "current st = overlap_seed ov prev @ new" "new \<noteq> []"
      by (auto simp: loop_inv_def follows_def)
    from False keep inv have "tally (current st @ [para]) \<le> t"
      by (simp add: loop_inv_def)
    with new show ?thesis
      unfolding follows_def by (intro exI [of _ "new @ [para]"]) simp
  qed
  with inv para show ?thesis
    by (simp add: window_para_keep [OF para keep] loop_inv_def)
qed

lemma emitted_budget_chain:
  "loop_inv t ov prev st \<Longrightarrow> budget_chain t ov prev (emitted_buffers t ov st paras)"
proof (induction paras arbitrary: prev st)
  case Nil
  then show ?case by (auto simp: loop_inv_def)
next
  case (Cons para paras)
  show ?case
  proof (cases "strip para = []")
    case True
    with Cons show ?thesis by (simp add: window_para_blank)
  next
    case para: False
    show ?thesis
    proof (cases "t < current_tokens st + approx_tokens para \<and> current st \<noteq> []")
      case True
      with Cons.prems have "follows t ov prev (current st)"
        by (auto simp: loop_inv_def)
      moreover have "budget_chain t ov (current st)
          (emitted_buffers t ov (window_para t ov st para) paras)"
        using Cons.prems para True by (intro Cons.IH loop_inv_emit) simp_all
      ultimately show ?thesis using para True by simp
    next
      case False
      have "budget_chain t ov prev (emitted_buffers t ov (window_para t ov st para) paras)"
        using Cons.prems para False by (intro Cons.IH loop_inv_keep) simp_all
      with para False show ?thesis by auto
    qed
  qed
qed

text \<open>Every emitted buffer is non-empty and holds non-blank paragraphs only.\<close>

lemma emitted_nonblank:
  "loop_inv t ov prev st \<Longrightarrow> buf \<in> set (emitted_buffers t ov st paras) \<Longrightarrow>
     buf \<noteq> [] \<and> (\<forall>p\<in>set buf. strip p \<noteq> [])"
proof (induction paras arbitrary: prev st)
  case Nil
  then show ?case by (auto simp: loop_inv_def split: if_splits)
next
  case (Cons para paras)
  show ?case
  proof (cases "strip para = []")
    case True
    with Cons show ?thesis by (simp add: window_para_blank)
  next
    case para: False
    show ?thesis
    proof (cases "t < current_tokens st + approx_tokens para \<and> current st \<noteq> []")
      case True
      show ?thesis
      proof (cases "buf = current st")
        case True
        with \<open>t < current_tokens st + approx_tokens para \<and> current st \<noteq> []\<close> Cons.prems(1)
        show ?thesis by (auto simp: loop_inv_def)
      next
        case False
        with Cons.prems(2) para True
        have "buf \<in> set (emitted_buffers t ov (window_para t ov st para) paras)" by simp
        moreover have "loop_inv t ov (current st) (window_para t ov st para)"
          using Cons.prems(1) para True by (intro loop_inv_emit) simp_all
        ultimately show ?thesis by (rule Cons.IH [rotated])
      qed
    next
      case False
      with Cons.prems(2) para
      have "buf \<in> set (emitted_buffers t ov (window_para t ov st para) paras)" by auto
      moreover have "loop_inv t ov prev (window_para t ov st para)"
        using Cons.prems(1) para False by (intro loop_inv_keep) simp_all
      ultimately show ?thesis by (rule Cons.IH [rotated])
    qed
  qed
qed

text \<open>The windows returned are the texts of the emitted buffers.\<close>

lemma windows_of_buffers:
  "loop_inv t ov prev st \<Longrightarrow>
     flush_windows (foldl (window_para t ov) st paras) =
       windows st @ map window_text (emitted_buffers t ov st paras)"
proof (induction paras arbitrary: prev st)
  case Nil
  then show ?case
    by (auto simp: flush_windows_def append_window_def loop_inv_def window_text_nonblank)
next
  case (Cons para paras)
  show ?case
  proof (cases "strip para = []")
    case True
    with Cons show ?thesis by (simp add: window_para_blank)
  next
    case para: False
    show ?thesis
    proof (cases "t < current_tokens st + approx_tokens para \<and> current st \<noteq> []")
      case True
      have inv': "loop_inv t ov (current st) (window_para t ov st para)"
        using Cons.prems para True by (intro loop_inv_emit) simp_all
      have "window_text (current st) \<noteq> []"
        using Cons.prems True by (intro window_text_nonblank) (auto simp: loop_inv_def)
      then have "windows (window_para t ov st para) = windows st @ [window_text (current st)]"
        using para True by (simp add: window_para_emit append_window_def)
      with Cons.IH [OF inv'] para True show ?thesis by simp
    next
      case False
      have inv': "loop_inv t ov prev (window_para t ov st para)"
        using Cons.prems para False by (intro loop_inv_keep) simp_all
      have "windows (window_para t ov st para) = windows st"
        using para False by (simp add: window_para_keep)
      with Cons.IH [OF inv'] para False show ?thesis by auto
    qed
  qed
qed

lemma emitted_nonempty:
  "current st \<noteq> [] \<or> (\<exists>p\<in>set paras. strip p \<noteq> []) \<Longrightarrow> emitted_buffers t ov st paras \<noteq> []"
proof (induction paras arbitrary: st)
  case Nil
  then show ?case by simp
next
  case (Cons para paras)
  show ?case
  proof (cases "strip para = []")
    case True
    with Cons.prems have "current st \<noteq> [] \<or> (\<exists>p\<in>set paras. strip p \<noteq> [])" by auto
    from Cons.IH [OF this] True show ?thesis by (simp add: window_para_blank)
  next
    case False
    then have "current (window_para t ov st para) \<noteq> []"
      by (simp add: window_para_def Let_def)
    then have "emitted_buffers t ov (window_para t ov st para) paras \<noteq> []"
      by (intro Cons.IH) simp
    then show ?thesis by simp
  qed
qed

lemma split_to_token_windows_long:
  "strip text \<noteq> [] \<Longrightarrow> t < approx_tokens text \<Longrightarrow>
     split_to_token_windows text t ov =
       map window_text (emitted_buffers t ov windows_init (re_split_par [] text))"
  using windows_of_buffers [OF loop_inv_init, of t ov "re_split_par [] text"]
  by (auto simp: split_to_token_windows_def flush_windows_def Let_def windows_init_def)

lemma split_to_token_windows_short:
  "strip text \<noteq> [] \<Longrightarrow> approx_tokens text \<le> t \<Longrightarrow> split_to_token_windows text t ov = [strip text]"
  by (auto simp: split_to_token_windows_def)

lemma split_to_token_windows_blank:
  "strip text = [] \<Longrightarrow> split_to_token_windows text t ov = []"
  by (auto simp: split_to_token_windows_def)

lemma budget_chain_nth:
  "budget_chain t ov prev bufs \<Longrightarrow> i < length bufs \<Longrightarrow>
     follows t ov (if i = 0 then prev else bufs ! (i - 1)) (bufs ! i)"
proof (induction bufs arbitrary: prev i)
  case Nil
  then show ?case by simp
next
  case (Cons buf bufs)
  show ?case
  proof (cases i)
    case 0
    with Cons.prems show ?thesis by simp
  next
    case (Suc j)
    with Cons.prems have "follows t ov (if j = 0 then buf else bufs ! (j - 1)) (bufs ! j)"
      by (intro Cons.IH) simp_all
    with Suc show ?thesis by (cases j) simp_all
  qed
qed

lemma follows_budget:
  assumes "follows t ov prev buf" and "\<forall>p\<in>set buf. strip p \<noteq> []"
  shows "(\<exists>p. buf = overlap_seed ov prev @ [p])
         \<or> (tally buf \<le> t \<and> approx_tokens (window_text buf) \<le> t + t div 2)"
proof -
  from assms(1) obtain new where new: "buf = overlap_seed ov prev @ new" "new \<noteq> []"
    "tally buf \<le> t \<or> length new = 1"
    by (auto simp: follows_def)
  show ?thesis
  proof (cases "length new = 1")
    case True
    then obtain p where "new = [p]" by (cases new) auto
    with new show ?thesis by simp
  next
    case False
    with new have le: "tally buf \<le> t" by simp
    from new have "buf \<noteq> []" by simp
    then have "approx_tokens (window_text buf) \<le> tally buf + tally buf div 2"
      using assms(2) by (rule window_text_tokens)
    also have "\<dots> \<le> t + t div 2"
      using le by (intro add_mono zdiv_mono1) simp_all
    finally show ?thesis using le by simp
  qed
qed

lemma loop_inv_step:
  assumes "loop_inv t ov prev st"
  shows "\<exists>prev'. loop_inv t ov prev' (window_para t ov st para)"
proof (cases "strip para = []")
  case True
  with assms show ?thesis by (auto simp: window_para_blank)
next
  case para: False
  show ?thesis
  proof (cases "t < current_tokens st + approx_tokens para \<and> current st \<noteq> []")
    case True
    with assms para have "loop_inv t ov (current st) (window_para t ov st para)"
      by (intro loop_inv_emit) simp_all
    then show ?thesis ..
  next
    case False
    with assms para have "loop_inv t ov prev (window_para t ov st para)"
      by (intro loop_inv_keep) simp_all
    then show ?thesis ..
  qed
qed

lemma loop_inv_foldl:
  "loop_inv t ov prev st \<Longrightarrow> \<exists>prev'. loop_inv t ov prev' (foldl (window_para t ov) st paras)"
proof (induction paras arbitrary: prev st)
  case Nil
  then show ?case by auto
next
  case (Cons para paras)
  from loop_inv_step [OF Cons.prems, of para]
  obtain prev' where "loop_inv t ov prev' (window_para t ov st para)" ..
  from Cons.IH [OF this] show ?case by simp
qed

lemma reachable_loop_inv:
  "\<exists>prev. loop_inv t ov prev (foldl (window_para t ov) windows_init paras)"
  using loop_inv_foldl [OF loop_inv_init] .

lemma reachable_tally:
  "current_tokens (foldl (window_para t ov) windows_init paras) =
     tally (current (foldl (window_para t ov) windows_init paras))"
  using reachable_loop_inv [of t ov paras] by (auto simp: loop_inv_def)

lemma reachable_emit:
  assumes "strip para \<noteq> []"
    and "t < current_tokens (foldl (window_para t ov) windows_init paras) + approx_tokens para"
    and "current (foldl (window_para t ov) windows_init paras) \<noteq> []"
  shows "window_para t ov (foldl (window_para t ov) windows_init paras) para =
      \<lparr> windows = windows (foldl (window_para t ov) windows_init paras)
                    @ [window_text (current (foldl (window_para t ov) windows_init paras))],
        current = overlap_seed ov (current (foldl (window_para t ov) windows_init paras)) @ [para],
        current_tokens =
          tally (overlap_seed ov (current (foldl (window_para t ov) windows_init paras)))
            + approx_tokens para \<rparr>"
proof -
  obtain prev where "loop_inv t ov prev (foldl (window_para t ov) windows_init paras)"
    using reachable_loop_inv by blast
  with assms(3) have "window_text (current (foldl (window_para t ov) windows_init paras)) \<noteq> []"
    by (intro window_text_nonblank) (auto simp: loop_inv_def)
  with assms show ?thesis
    by (simp add: window_para_emit append_window_def)
qed

lemma emitted_overlap:
  assumes "0 < i" "i < length (emitted_buffers t ov windows_init paras)"
  shows "(\<exists>new. emitted_buffers t ov windows_init paras ! i =
              overlap_seed ov (emitted_buffers t ov windows_init paras ! (i - 1)) @ new)
         \<and> overlap_seed ov (emitted_buffers t ov windows_init paras ! (i - 1)) \<noteq> []
         \<and> suffix (overlap_seed ov (emitted_buffers t ov windows_init paras ! (i - 1)))
              (emitted_buffers t ov windows_init paras ! (i - 1))"
proof -
  let ?bufs = "emitted_buffers t ov windows_init paras"
  have "budget_chain t ov [] ?bufs"
    by (rule emitted_budget_chain [OF loop_inv_init])
  from budget_chain_nth [OF this assms(2)] assms(1)
  have "follows t ov (?bufs ! (i - 1)) (?bufs ! i)" by simp
  then have 1: "\<exists>new. ?bufs ! i = overlap_seed ov (?bufs ! (i - 1)) @ new"
    by (auto simp: follows_def)
  from assms have "?bufs ! (i - 1) \<in> set ?bufs" by simp
  from emitted_nonblank [OF loop_inv_init this] have "?bufs ! (i - 1) \<noteq> []" by simp
  with overlap_seed_shape [of ov "?bufs ! (i - 1)"] 1 show ?thesis by blast
qed

subsection \<open>The scenario of 500 one-letter paragraphs\<close>

lemma blank_match_LF_A: "blank_match (CHR 0x0A # CHR ''A'' # cs) = Some 1"
  by (simp add: blank_match_def is_space_def)

lemma join_replicate_A:
  "join_with [CHR 0x0A, CHR 0x0A] (replicate (Suc (Suc n)) ''A'') =
     CHR ''A'' # CHR 0x0A # CHR 0x0A # join_with [CHR 0x0A, CHR 0x0A] (replicate (Suc n) ''A'')"
  by simp

lemma join_replicate_A_hd:
  "\<exists>cs. join_with [CHR 0x0A, CHR 0x0A] (replicate (Suc n) ''A'') = CHR ''A'' # cs"
  by (cases n) simp_all

lemma re_split_par_A:
  "re_split_par piece (join_with [CHR 0x0A, CHR 0x0A] (replicate (Suc n) ''A'')) =
     (piece @ ''A'') # replicate n ''A''"
proof (induction n arbitrary: piece)
  case 0
  show ?case by simp
next
  case (Suc n)
  obtain cs where cs: "join_with [CHR 0x0A, CHR 0x0A] (replicate (Suc n) ''A'') = CHR ''A'' # cs"
    using join_replicate_A_hd by blast
  have "re_split_par piece (CHR ''A'' # CHR 0x0A # CHR 0x0A # CHR ''A'' # cs) =
      (piece @ ''A'') # re_split_par [] (CHR ''A'' # cs)"
    by (simp add: blank_match_LF_A)
  then have "re_split_par piece (join_with [CHR 0x0A, CHR 0x0A] (replicate (Suc (Suc n)) ''A'')) =
      (piece @ ''A'') # re_split_par [] (join_with [CHR 0x0A, CHR 0x0A] (replicate (Suc n) ''A''))"
    unfolding join_replicate_A cs .
  also have "\<dots> = (piece @ ''A'') # replicate (Suc n) ''A''"
    using Suc.IH [of "[]"] by simp
  finally show ?case .
qed

lemma strip_A: "strip ''A'' = ''A''"
  by (simp add: strip_def is_space_def)

lemma approx_tokens_A: "approx_tokens ''A'' = 1"
  by (simp add: approx_tokens_def)

lemma tally_replicate_A: "tally (replicate k ''A'') = int k"
  by (induction k) (simp_all add: approx_tokens_A)

lemma overlap_walk_A:
  "sofar < 5 \<Longrightarrow> nat (5 - sofar) \<le> m \<Longrightarrow>
     overlap_walk 5 (replicate m ''A'') acc sofar = replicate (nat (5 - sofar)) ''A'' @ acc"
proof (induction m arbitrary: acc sofar)
  case 0
  then show ?case by simp
next
  case (Suc m)
  show ?case
  proof (cases "sofar = 4")
    case True
    then show ?thesis by (simp add: approx_tokens_A)
  next
    case False
    with Suc.prems have lt: "sofar + 1 < 5" and le: "nat (5 - (sofar + 1)) \<le> m" by auto
    have "nat (5 - sofar) = Suc (nat (5 - (sofar + 1)))" using lt by auto
    with Suc.IH [OF lt le, of "''A'' # acc"] lt show ?thesis
      by (simp add: approx_tokens_A replicate_app_Cons_same)
  qed
qed

lemma overlap_seed_A: "5 \<le> m \<Longrightarrow> overlap_seed 5 (replicate m ''A'') = replicate 5 ''A''"
  using overlap_walk_A [of 0 m "[]"] by (simp add: overlap_seed_def)

lemma window_para_A_keep:
  "k < 50 \<Longrightarrow>
     window_para 50 5 \<lparr> windows = ws, current = replicate k ''A'', current_tokens = int k \<rparr> ''A'' =
       \<lparr> windows = ws, current = replicate (Suc k) ''A'', current_tokens = int (Suc k) \<rparr>"
  by (simp add: window_para_def strip_A approx_tokens_A Let_def replicate_append_same)

lemma window_para_A_emit:
  "window_para 50 5 \<lparr> windows = ws, current = replicate 50 ''A'', current_tokens = 50 \<rparr> ''A'' =
       \<lparr> windows = append_window (replicate 50 ''A'') ws, current = replicate 6 ''A'',
         current_tokens = 6 \<rparr>"
proof -
  have "replicate 5 ''A'' @ [''A''] = replicate 6 ''A''"
    by (simp add: numeral_eq_Suc)
  moreover have "sum_list (map approx_tokens (replicate 5 ''A'')) = 5"
    using tally_replicate_A [of 5] by (simp add: tally_def)
  ultimately show ?thesis
    by (simp add: window_para_def strip_A approx_tokens_A Let_def overlap_seed_A)
qed

lemma emitted_A_fill:
  "k + m \<le> 50 \<Longrightarrow>
     emitted_buffers 50 5 \<lparr> windows = ws, current = replicate k ''A'', current_tokens = int k \<rparr>
       (replicate m ''A'' @ rest) =
     emitted_buffers 50 5 \<lparr> windows = ws, current = replicate (k + m) ''A'', current_tokens = int (k + m) \<rparr>
       rest"
proof (induction m arbitrary: k)
  case 0
  show ?case by simp
next
  case (Suc m)
  then have k: "k < 50" and km: "Suc k + m \<le> 50" by simp_all
  from Suc.IH [OF km] k show ?case
    by (simp add: window_para_A_keep approx_tokens_A strip_A)
qed

lemma emitted_A_group:
  "emitted_buffers 50 5 \<lparr> windows = ws, current = replicate 50 ''A'', current_tokens = 50 \<rparr>
       (replicate 45 ''A'' @ rest) =
     replicate 50 ''A'' #
     emitted_buffers 50 5
       \<lparr> windows = append_window (replicate 50 ''A'') ws, current = replicate 50 ''A'',
         current_tokens = 50 \<rparr> rest"
proof -
  have split: "replicate 45 ''A'' = ''A'' # replicate 44 ''A''"
    by (simp add: numeral_eq_Suc)
  have ne: "replicate 50 ''A'' \<noteq> []" by simp
  show ?thesis
    unfolding split
    using emitted_A_fill [of 6 44 "append_window (replicate 50 ''A'') ws" rest] ne
    by (simp add: window_para_A_emit approx_tokens_A strip_A)
qed

lemma emitted_A_groups:
  "emitted_buffers 50 5 \<lparr> windows = ws, current = replicate 50 ''A'', current_tokens = 50 \<rparr>
       (concat (replicate j (replicate 45 ''A''))) =
     replicate (Suc j) (replicate 50 ''A'')"
proof (induction j arbitrary: ws)
  case 0
  show ?case by simp
next
  case (Suc j)
  have "concat (replicate (Suc j) (replicate 45 ''A'')) =
      replicate 45 ''A'' @ concat (replicate j (replicate 45 ''A''))"
    by simp
  then have "emitted_buffers 50 5 \<lparr> windows = ws, current = replicate 50 ''A'', current_tokens = 50 \<rparr>
       (concat (replicate (Suc j) (replicate 45 ''A''))) =
     replicate 50 ''A'' #
     emitted_buffers 50 5
       \<lparr> windows = append_window (replicate 50 ''A'') ws, current = replicate 50 ''A'',
         current_tokens = 50 \<rparr> (concat (replicate j (replicate 45 ''A'')))"
    by (simp only: emitted_A_group)
  also have "\<dots> = replicate 50 ''A'' # replicate (Suc j) (replicate 50 ''A'')"
    by (simp only: Suc.IH)
  finally show ?case by simp
qed

lemma concat_replicate_replicate: "concat (replicate i (replicate j x)) = replicate (i * j) x"
  by (induction i) (simp_all add: replicate_add)

lemma emitted_A_500:
  "emitted_buffers 50 5 windows_init (replicate 500 ''A'') = replicate 11 (replicate 50 ''A'')"
proof -
  have "replicate 500 ''A'' = replicate 50 ''A'' @ concat (replicate 10 (replicate 45 ''A''))"
    by (simp add: concat_replicate_replicate flip: replicate_add)
  moreover have "emitted_buffers 50 5 windows_init
      (replicate 50 ''A'' @ concat (replicate 10 (replicate 45 ''A''))) =
      emitted_buffers 50 5 \<lparr> windows = [], current = replicate 50 ''A'', current_tokens = 50 \<rparr>
        (concat (replicate 10 (replicate 45 ''A'')))"
    using emitted_A_fill [of 0 50 "[]" "concat (replicate 10 (replicate 45 ''A''))"]
    by (simp add: windows_init_def)
  ultimately show ?thesis
    using emitted_A_groups [of "[]" 10] by simp
qed

lemma text_A_500:
  "strip (join_with [CHR 0x0A, CHR 0x0A] (replicate 500 ''A'')) \<noteq> []
   \<and> 50 < approx_tokens (join_with [CHR 0x0A, CHR 0x0A] (replicate 500 ''A''))"
proof -
  have "set ''A'' \<subseteq> set (join_with [CHR 0x0A, CHR 0x0A] (replicate 500 ''A''))"
    by (rule set_join_with) simp
  moreover have "\<not> is_space (CHR ''A'')"
    by (simp add: is_space_def)
  ultimately have "\<exists>c\<in>set (join_with [CHR 0x0A, CHR 0x0A] (replicate 500 ''A'')). \<not> is_space c"
    by auto
  then have 1: "strip (join_with [CHR 0x0A, CHR 0x0A] (replicate 500 ''A'')) \<noteq> []"
    by (simp add: strip_Nil_iff)
  have "int (length (join_with [CHR 0x0A, CHR 0x0A] (replicate 500 ''A''))) = 1498"
    by (subst length_join_with) (simp_all add: sum_list_replicate)
  then have 2: "50 < approx_tokens (join_with [CHR 0x0A, CHR 0x0A] (replicate 500 ''A''))"
    by (simp add: approx_tokens_def)
  from 1 2 show ?thesis by blast
qed

lemma windows_A_500:
  "split_to_token_windows (join_with [CHR 0x0A, CHR 0x0A] (replicate 500 ''A'')) 50 5 =
     replicate 11 (window_text (replicate 50 ''A''))"
proof -
  have "re_split_par [] (join_with [CHR 0x0A, CHR 0x0A] (replicate 500 ''A'')) = replicate 500 ''A''"
    using re_split_par_A [of "[]" 499] by (simp flip: replicate_Suc)
  with text_A_500 show ?thesis
    by (simp add: split_to_token_windows_long emitted_A_500)
qed

subsection \<open>Non-blank input\<close>

lemma strip_nonblank_iff: "strip s \<noteq> [] \<longleftrightarrow> nonblank s"
  by (auto simp: strip_Nil_iff nonblank_def)

lemma split_on_nonempty: "split_on sep s \<noteq> []"
  by (induction s) (auto split: list.splits)

lemma split_on_chars: "c \<in> set s \<Longrightarrow> c \<noteq> sep \<Longrightarrow> \<exists>l\<in>set (split_on sep s). c \<in> set l"
proof (induction s)
  case Nil
  then show ?case by simp
next
  case (Cons x xs)
  show ?case
  proof (cases "x = sep")
    case True
    with Cons show ?thesis by auto
  next
    case False
    obtain piece pieces where sp: "split_on sep xs = piece # pieces"
      using split_on_nonempty [of sep xs] by (cases "split_on sep xs") auto
    show ?thesis
    proof (cases "c = x")
      case True
      with False sp show ?thesis by simp
    next
      case ne: False
      with Cons.prems have "c \<in> set xs" by simp
      from Cons.IH [OF this Cons.prems(2)] sp False show ?thesis by auto
    qed
  qed
qed

lemma is_space_LF: "is_space (CHR 0x0A)"
  by (simp add: is_space_def)

lemma split_on_nonblank: "nonblank s \<Longrightarrow> \<exists>l\<in>set (split_on (CHR 0x0A) s). nonblank l"
proof -
  assume "nonblank s"
  then obtain c where c: "c \<in> set s" "\<not> is_space c" by (auto simp: nonblank_def)
  then have "c \<noteq> CHR 0x0A" using is_space_LF by auto
  from split_on_chars [OF c(1) this] c(2) show ?thesis by (auto simp: nonblank_def)
qed

lemma join_with_nonblank: "l \<in> set ls \<Longrightarrow> nonblank l \<Longrightarrow> nonblank (join_with sep ls)"
  using set_join_with [of l ls sep] by (auto simp: nonblank_def)

lemma flush_section_nonblank:
  "l \<in> set ls \<Longrightarrow> nonblank l \<Longrightarrow> flush_section path ls \<noteq> None"
  using join_with_nonblank [of l ls "[CHR 0x0A]"]
  by (auto simp: flush_section_def Let_def strip_nonblank_iff)

lemma flush_section_text:
  assumes "flush_section path ls = Some sec"
  shows "nonblank (snd sec)"
proof -
  from assms have "snd sec = strip (join_with [CHR 0x0A] ls)" and "snd sec \<noteq> []"
    by (auto simp: flush_section_def Let_def split: if_splits)
  then have "strip (snd sec) \<noteq> []"
    using strip_strip_nonblank [of "join_with [CHR 0x0A] ls"] by simp
  then show ?thesis by (simp add: strip_nonblank_iff)
qed

lemma emit_nonempty: "ys \<noteq> [] \<or> out \<noteq> None \<Longrightarrow> emit out ys \<noteq> []"
  by (auto simp: emit_def split: option.splits)

lemma section_line_content:
  assumes "has_content st \<or> nonblank line"
  shows "has_content (section_line st line)"
proof (cases "parse_header line")
  case None
  with assms show ?thesis by (auto simp: section_line_def has_content_def)
next
  case (Some hdr)
  obtain level group2 where hdr: "hdr = (level, group2)" by (cases hdr)
  show ?thesis
  proof (cases "has_content st")
    case True
    then have "yielded st \<noteq> [] \<or> flush_section (current_path st) (current_section_lines st) \<noteq> None"
      using flush_section_nonblank by (auto simp: has_content_def)
    then have "emit (flush_section (current_path st) (current_section_lines st)) (yielded st) \<noteq> []"
      by (rule emit_nonempty)
    with Some hdr show ?thesis by (simp add: section_line_def has_content_def)
  next
    case False
    with assms have "nonblank line" by simp
    with Some hdr show ?thesis by (simp add: section_line_def has_content_def)
  qed
qed

lemma foldl_section_line_content:
  "has_content st \<or> (\<exists>l\<in>set ls. nonblank l) \<Longrightarrow> has_content (foldl section_line st ls)"
proof (induction ls arbitrary: st)
  case Nil
  then show ?case by simp
next
  case (Cons l ls)
  show ?case
  proof (cases "has_content st \<or> nonblank l")
    case True
    then have "has_content (section_line st l)" by (rule section_line_content)
    then show ?thesis using Cons.IH [of "section_line st l"] by simp
  next
    case False
    with Cons.prems have "\<exists>l\<in>set ls. nonblank l" by auto
    then show ?thesis using Cons.IH [of "section_line st l"] by simp
  qed
qed

lemma iter_sections_nonempty: "nonblank markdown \<Longrightarrow> iter_sections markdown \<noteq> []"
proof -
  assume "nonblank markdown"
  then have "\<exists>l\<in>set (split_on (CHR 0x0A) markdown). nonblank l" by (rule split_on_nonblank)
  then have "has_content (foldl section_line sections_init (split_on (CHR 0x0A) markdown))"
    by (intro foldl_section_line_content) simp
  then show ?thesis
    unfolding iter_sections_def Let_def has_content_def
    using flush_section_nonblank by (intro emit_nonempty) auto
qed

text \<open>Every section yielded has a text that is not blank.\<close>

lemma emit_texts:
  "\<forall>sec\<in>set ys. nonblank (snd sec) \<Longrightarrow> out = flush_section path ls \<Longrightarrow>
     \<forall>sec\<in>set (emit out ys). nonblank (snd sec)"
  using flush_section_text by (auto simp: emit_def split: option.splits)

lemma section_line_texts:
  "\<forall>sec\<in>set (yielded st). nonblank (snd sec) \<Longrightarrow>
     \<forall>sec\<in>set (yielded (section_line st line)). nonblank (snd sec)"
  using emit_texts [of "yielded st" _ "current_path st" "current_section_lines st"]
  by (auto simp: section_line_def split: option.splits)

lemma foldl_section_line_texts:
  "\<forall>sec\<in>set (yielded st). nonblank (snd sec) \<Longrightarrow>
     \<forall>sec\<in>set (yielded (foldl section_line st ls)). nonblank (snd sec)"
proof (induction ls arbitrary: st)
  case Nil
  then show ?case by simp
next
  case (Cons l ls)
  from section_line_texts [OF Cons.prems, of l] show ?case
    using Cons.IH [of "section_line st l"] by simp
qed

lemma iter_sections_texts: "sec \<in> set (iter_sections markdown) \<Longrightarrow> nonblank (snd sec)"
proof -
  let ?st = "foldl section_line sections_init (split_on (CHR 0x0A) markdown)"
  have "\<forall>sec\<in>set (yielded ?st). nonblank (snd sec)"
    by (rule foldl_section_line_texts) (simp add: sections_init_def)
  then have "\<forall>sec\<in>set (emit (flush_section (current_path ?st) (current_section_lines ?st)) (yielded ?st)).
      nonblank (snd sec)"
    by (rule emit_texts) simp
  then show "sec \<in> set (iter_sections markdown) \<Longrightarrow> nonblank (snd sec)"
    by (simp add: iter_sections_def Let_def)
qed

subsection \<open>Windows of a text that is not blank\<close>

lemma blank_match_spaces:
  assumes "blank_match cs = Some n"
  shows "n \<le> length cs \<and> (\<forall>c\<in>set (take n cs). is_space c)"
proof -
  let ?ws = "takeWhile is_space cs"
  from assms have n: "n = length ?ws - length (takeWhile (\<lambda>c. c \<noteq> CHR 0x0A) (rev ?ws))"
    by (auto simp: blank_match_def Let_def split: if_splits)
  then have le: "n \<le> length ?ws" by simp
  have "length ?ws \<le> length cs" by (rule length_takeWhile_le)
  with le have 1: "n \<le> length cs" by simp
  have "take n cs = take n ?ws"
    using le by (metis takeWhile_dropWhile_id take_append diff_is_0_eq take0 append_Nil2)
  then have "set (take n cs) \<subseteq> set ?ws" by (metis set_take_subset)
  then have 2: "\<forall>c\<in>set (take n cs). is_space c"
    by (auto dest: set_takeWhileD)
  from 1 2 show ?thesis ..
qed

lemma re_split_par_nonblank:
  "nonblank piece \<or> nonblank s \<Longrightarrow> \<exists>p\<in>set (re_split_par piece s). nonblank p"
proof (induction piece s rule: re_split_par.induct)
  case (1 piece)
  then show ?case by (simp add: nonblank_def)
next
  case (2 piece c cs)
  show ?case
  proof (cases "c = CHR 0x0A")
    case False
    from "2.prems" have "nonblank (piece @ [c]) \<or> nonblank cs"
      by (auto simp: nonblank_def)
    with "2.IH"(3) [OF False] False show ?thesis by simp
  next
    case LF: True
    show ?thesis
    proof (cases "blank_match cs")
      case None
      from "2.prems" have "nonblank (piece @ [c]) \<or> nonblank cs"
        by (auto simp: nonblank_def)
      with "2.IH"(1) [OF LF None] LF None show ?thesis by simp
    next
      case (Some n)
      show ?thesis
      proof (cases "nonblank piece")
        case True
        with LF Some show ?thesis by simp
      next
        case False
        with "2.prems" LF have "nonblank cs"
          using is_space_LF by (auto simp: nonblank_def)
        then obtain x where x: "x \<in> set cs" "\<not> is_space x" by (auto simp: nonblank_def)
        from blank_match_spaces [OF Some] have "\<forall>c\<in>set (take n cs). is_space c" by simp
        with x have "x \<notin> set (take n cs)" by auto
        moreover have "set cs = set (take n cs) \<union> set (drop n cs)"
          by (metis append_take_drop_id set_append)
        ultimately have "x \<in> set (drop n cs)" using x(1) by auto
        with x(2) have "nonblank [] \<or> nonblank (drop n cs)" by (auto simp: nonblank_def)
        with "2.IH"(2) [OF LF Some] LF Some show ?thesis by simp
      qed
    qed
  qed
qed

lemma split_to_token_windows_nonblank:
  assumes "nonblank doc"
  shows "split_to_token_windows doc t ov \<noteq> []
         \<and> (\<forall>w\<in>set (split_to_token_windows doc t ov). nonblank w)"
proof (cases "approx_tokens doc \<le> t")
  case True
  from assms have ne: "strip doc \<noteq> []" by (simp add: strip_nonblank_iff)
  then have "nonblank (strip doc)"
    using strip_strip_nonblank [of doc] by (simp add: strip_nonblank_iff)
  with True ne show ?thesis by (simp add: split_to_token_windows_short)
next
  case False
  let ?bufs = "emitted_buffers t ov windows_init (re_split_par [] doc)"
  from assms have ne: "strip doc \<noteq> []" by (simp add: strip_nonblank_iff)
  with False have eq: "split_to_token_windows doc t ov = map window_text ?bufs"
    by (intro split_to_token_windows_long) simp_all
  from assms have "\<exists>p\<in>set (re_split_par [] doc). strip p \<noteq> []"
    using re_split_par_nonblank [of "[]" doc] by (simp add: strip_nonblank_iff)
  then have 1: "?bufs \<noteq> []" by (intro emitted_nonempty) simp
  have 2: "nonblank (window_text buf)" if "buf \<in> set ?bufs" for buf
  proof -
    from emitted_nonblank [OF loop_inv_init that]
    have "window_text buf \<noteq> []" by (intro window_text_nonblank) simp_all
    then have "strip (window_text buf) \<noteq> []"
      unfolding window_text_def by (rule strip_strip_nonblank)
    then show ?thesis by (simp add: strip_nonblank_iff)
  qed
  from 1 2 eq show ?thesis by auto
qed

subsection \<open>The chunk writer\<close>

lemma write_window_mono: "fst acc \<le> fst (write_window doc_id sec acc w)"
  by (simp add: write_window_def)

lemma write_window_strict: "nonblank w \<Longrightarrow> fst acc < fst (write_window doc_id sec acc w)"
  by (simp add: write_window_def strip_nonblank_iff)

lemma foldl_write_window_mono: "fst acc \<le> fst (foldl (write_window doc_id sec) acc ws)"
proof (induction ws arbitrary: acc)
  case Nil
  show ?case by simp
next
  case (Cons w ws)
  have "fst acc \<le> fst (write_window doc_id sec acc w)" by (rule write_window_mono)
  also have "\<dots> \<le> fst (foldl (write_window doc_id sec) (write_window doc_id sec acc w) ws)"
    by (rule Cons.IH)
  finally show ?case by simp
qed

lemma foldl_write_window_strict:
  "\<exists>w\<in>set ws. nonblank w \<Longrightarrow> fst acc < fst (foldl (write_window doc_id sec) acc ws)"
proof (induction ws arbitrary: acc)
  case Nil
  then show ?case by simp
next
  case (Cons w ws)
  show ?case
  proof (cases "nonblank w")
    case True
    then have "fst acc < fst (write_window doc_id sec acc w)" by (rule write_window_strict)
    also have "\<dots> \<le> fst (foldl (write_window doc_id sec) (write_window doc_id sec acc w) ws)"
      by (rule foldl_write_window_mono)
    finally show ?thesis by simp
  next
    case False
    with Cons.prems have "\<exists>w\<in>set ws. nonblank w" by auto
    then have "fst (write_window doc_id sec acc w)
        < fst (foldl (write_window doc_id sec) (write_window doc_id sec acc w) ws)"
      by (rule Cons.IH)
    with write_window_mono [of acc doc_id sec w] show ?thesis by simp
  qed
qed

lemma write_section_strict:
  assumes "nonblank (snd sec)"
  shows "fst acc < fst (write_section doc_id t ov acc sec)"
proof -
  from split_to_token_windows_nonblank [OF assms, of t ov]
  have "\<exists>w\<in>set (split_to_token_windows (snd sec) t ov). nonblank w"
    by (cases "split_to_token_windows (snd sec) t ov") auto
  then show ?thesis
    unfolding write_section_def by (rule foldl_write_window_strict)
qed

lemma foldl_write_section_strict:
  "secs \<noteq> [] \<Longrightarrow> \<forall>sec\<in>set secs. nonblank (snd sec) \<Longrightarrow>
     fst acc < fst (foldl (write_section doc_id t ov) acc secs)"
proof (induction secs arbitrary: acc)
  case Nil
  then show ?case by simp
next
  case (Cons sec secs)
  from Cons.prems have step: "fst acc < fst (write_section doc_id t ov acc sec)"
    by (intro write_section_strict) simp
  show ?case
  proof (cases "secs = []")
    case True
    with step show ?thesis by simp
  next
    case False
    with Cons.prems have "fst (write_section doc_id t ov acc sec)
        < fst (foldl (write_section doc_id t ov) (write_section doc_id t ov acc sec) secs)"
      by (intro Cons.IH) simp_all
    with step show ?thesis by simp
  qed
qed

text \<open>For a document that is not blank, the sections alone yield a chunk.\<close>

lemma sections_yield_chunk:
  assumes "strip markdown \<noteq> []"
  shows "1 \<le> fst (foldl (write_section doc_id t ov) (0, []) (iter_sections markdown))"
proof -
  from assms have nb: "nonblank markdown" by (simp add: strip_nonblank_iff)
  have "fst (0 :: nat, [] :: chunk list)
      < fst (foldl (write_section doc_id t ov) (0, []) (iter_sections markdown))"
    using iter_sections_nonempty [OF nb] iter_sections_texts [of _ markdown]
    by (intro foldl_write_section_strict) auto
  then show ?thesis by simp
qed

lemma foldl_write_window_section:
  "\<forall>c\<in>set (snd acc). meta_section c = sec \<Longrightarrow>
     \<forall>c\<in>set (snd (foldl (write_window doc_id sec) acc ws)). meta_section c = sec"
proof (induction ws arbitrary: acc)
  case Nil
  then show ?case by simp
next
  case (Cons w ws)
  from Cons.prems have "\<forall>c\<in>set (snd (write_window doc_id sec acc w)). meta_section c = sec"
    by (auto simp: write_window_def)
  from Cons.IH [OF this] show ?case by simp
qed

lemma str_nat_0: "str_nat 0 = ''0''"
  by code_simp

lemma no_headers_sections:
  "iter_sections ''First paragraph.\<newline>\<newline>Second paragraph.\<newline>\<newline>Third.'' =
     [([], ''First paragraph.\<newline>\<newline>Second paragraph.\<newline>\<newline>Third.'')]"
  by code_simp

lemma no_headers_windows:
  "split_to_token_windows ''First paragraph.\<newline>\<newline>Second paragraph.\<newline>\<newline>Third.'' 20 5 =
     [''First paragraph.\<newline>\<newline>Second paragraph.\<newline>\<newline>Third.'']"
  by code_simp

lemma no_headers_strip:
  "strip ''First paragraph.\<newline>\<newline>Second paragraph.\<newline>\<newline>Third.'' =
     ''First paragraph.\<newline>\<newline>Second paragraph.\<newline>\<newline>Third.''"
  by code_simp

lemma no_headers_chunks:
  "generate_chunks_jsonl (Some ''First paragraph.\<newline>\<newline>Second paragraph.\<newline>\<newline>Third.'') doc_id 20 5 =
     (1, Some [\<lparr> chunk_id = doc_id @ ''_0'',
                 chunk_text = ''First paragraph.\<newline>\<newline>Second paragraph.\<newline>\<newline>Third.'',
                 meta_doc_id = doc_id, meta_section = [] \<rparr>])"
proof -
  have main: "foldl (write_section doc_id 20 5) (0, [])
      (iter_sections ''First paragraph.\<newline>\<newline>Second paragraph.\<newline>\<newline>Third.'') =
     (1, [\<lparr> chunk_id = doc_id @ ''_0'',
            chunk_text = ''First paragraph.\<newline>\<newline>Second paragraph.\<newline>\<newline>Third.'',
            meta_doc_id = doc_id, meta_section = [] \<rparr>])"
    unfolding no_headers_sections
    by (simp add: write_section_def no_headers_windows write_window_def no_headers_strip str_nat_0)
  show ?thesis
    unfolding generate_chunks_jsonl_def option.case main Let_def by simp
qed

subsection \<open>The steps of sanitize_stem\<close>

lemma in_class_underscore: "in_class (CHR ''_'')"
  by (simp add: in_class_def)

lemma not_in_class_space: "\<not> in_class (CHR '' '')"
  by (simp add: in_class_def)

lemma sub_outside_class_map: "sub_outside_class s = keep_class s"
  by (induction s) (simp_all add: keep_class_def)

lemma keep_class_replace_spaces: "keep_class (replace_spaces s) = keep_class s"
  by (induction s) (auto simp: keep_class_def replace_spaces_def in_class_underscore not_in_class_space)

lemma keep_class_in_class: "c \<in> set (keep_class s) \<Longrightarrow> in_class c"
  by (auto simp: keep_class_def in_class_underscore)

lemma collapse_repeated_other:
  "c \<noteq> CHR ''_'' \<Longrightarrow> collapse_repeated (c # cs) = c # collapse_repeated cs"
  by (cases cs) simp_all

lemma collapse_repeated_underscore:
  "collapse_repeated (CHR ''_'' # cs) =
     CHR ''_'' # collapse_repeated (dropWhile (\<lambda>x. x = CHR ''_'') cs)"
proof (induction cs)
  case Nil
  show ?case by simp
next
  case (Cons d cs)
  then show ?case by (cases "d = CHR ''_''") simp_all
qed

lemma sub_underscores_collapse: "sub_underscores s = collapse_repeated s"
  by (induction s rule: sub_underscores.induct)
     (simp_all add: collapse_repeated_other collapse_repeated_underscore)

lemma set_collapse_repeated: "set (collapse_repeated s) \<subseteq> set s"
  by (induction s rule: collapse_repeated.induct) auto

lemma set_trim_underscores: "set (trim_underscores s) \<subseteq> set s"
proof -
  have "set (trim_underscores s) \<subseteq> set (dropWhile (\<lambda>x. x = CHR ''_'') s)"
    unfolding trim_underscores_def by (auto dest: set_dropWhileD)
  also have "\<dots> \<subseteq> set s" by (auto dest: set_dropWhileD)
  finally show ?thesis .
qed

lemma strip_underscores_trim: "strip_underscores s = trim_underscores s"
  by (simp add: strip_underscores_def trim_underscores_def)

lemma hd_dot_take: "stem \<noteq> [] \<Longrightarrow> (hd stem = CHR ''.'') = (take 1 stem = ''.'')"
  by (cases stem) simp_all

lemma sanitize_stem_eq_amended: "sanitize_stem filename = sanitize_stem_amended filename"
proof (cases "strip (path_stem filename) = []")
  case True
  then show ?thesis by (simp add: sanitize_stem_def sanitize_stem_amended_def)
next
  case False
  then show ?thesis
    by (simp add: sanitize_stem_def sanitize_stem_amended_def Let_def MAX_STEM_LENGTH_def
        sub_outside_class_map keep_class_replace_spaces sub_underscores_collapse
        strip_underscores_trim hd_dot_take)
qed

lemma document_in_class: "c \<in> set ''document'' \<Longrightarrow> in_class c"
  by (auto simp: in_class_def)

lemma sanitize_stem_amended_safe:
  "sanitize_stem_amended filename \<noteq> []
   \<and> length (sanitize_stem_amended filename) \<le> 80
   \<and> (\<forall>c\<in>set (sanitize_stem_amended filename). in_class c)"
proof -
  let ?s = "trim_underscores (collapse_repeated (keep_class (strip (path_stem filename))))"
  have cls: "in_class c" if "c \<in> set (take 80 ?s)" for c
  proof -
    from that have "c \<in> set ?s" by (rule in_set_takeD)
    then have "c \<in> set (keep_class (strip (path_stem filename)))"
      using set_trim_underscores set_collapse_repeated by blast
    then show ?thesis by (rule keep_class_in_class)
  qed
  have ne: "take 80 ?s \<noteq> []" if "?s \<noteq> []"
    using that by simp
  show ?thesis
    unfolding sanitize_stem_amended_def Let_def
    using cls ne document_in_class by (auto split: if_splits)
qed

section \<open>Facts about the extraction route\<close>

subsection \<open>What the writes leave unchanged\<close>

lemma write_metadata_guard:
  "extracting (snd (write_metadata job_id metadata artifact_prefix srv)) = extracting srv
   \<and> threads (snd (write_metadata job_id metadata artifact_prefix srv)) = threads srv"
  by (simp add: write_metadata_def Let_def split: sum.splits)

lemma discard_guard:
  "extracting (discard job_id srv) = extracting srv - {job_id} \<and> threads (discard job_id srv) = threads srv"
  by (simp add: discard_def)

lemma except_block_guard:
  "threads (snd (except_block job_id input_name prefix' message srv)) = threads srv
   \<and> extracting (snd (except_block job_id input_name prefix' message srv)) \<subseteq> extracting srv
   \<and> extracting srv - {job_id} \<subseteq> extracting (snd (except_block job_id input_name prefix' message srv))"
proof -
  let ?srv1 = "srv \<lparr> disk := snd (try_placeholder_fallback job_id prefix' (disk srv)),
                      trace := trace srv @ [FallbackRun job_id] \<rparr>"
  have g: "extracting (snd (write_metadata job_id metadata (Some prefix') ?srv1)) = extracting srv
      \<and> threads (snd (write_metadata job_id metadata (Some prefix') ?srv1)) = threads srv" for metadata
    using write_metadata_guard [of job_id metadata "Some prefix'" ?srv1] by simp
  show ?thesis
    unfolding except_block_def Let_def
    using g by (auto simp: discard_guard split: prod.splits sum.splits) (metis snd_conv)+
qed


lemma run_extraction_background_guard:
  "threads (snd (run_extraction_background w job_id input_name prefix' srv)) = threads srv
   \<and> extracting (snd (run_extraction_background w job_id input_name prefix' srv)) \<subseteq> extracting srv
   \<and> extracting srv - {job_id} \<subseteq> extracting (snd (run_extraction_background w job_id input_name prefix' srv))"
proof -
  let ?srv1 = "srv \<lparr> disk := snd (w (disk srv)), trace := trace srv @ [WorkerRun job_id] \<rparr>"
  let ?srv2 = "?srv1 \<lparr> disk := snd (read_metadata job_id (disk ?srv1)) \<rparr>"
  have e: "threads (snd (except_block job_id input_name prefix' message ?srv1)) = threads srv
      \<and> extracting (snd (except_block job_id input_name prefix' message ?srv1)) \<subseteq> extracting srv
      \<and> extracting srv - {job_id} \<subseteq> extracting (snd (except_block job_id input_name prefix' message ?srv1))"
    for message
    using except_block_guard [of job_id input_name prefix' message ?srv1] by simp
  have g: "extracting (snd (write_metadata job_id metadata (Some prefix') ?srv2)) = extracting srv
      \<and> threads (snd (write_metadata job_id metadata (Some prefix') ?srv2)) = threads srv" for metadata
    using write_metadata_guard [of job_id metadata "Some prefix'" ?srv2] by simp
  show ?thesis
  proof (cases "fst (w (disk srv))")
    case TimeoutExpired
    then show ?thesis
      unfolding run_extraction_background_def Let_def using e by simp
  next
    case (Raised msg)
    then show ?thesis
      unfolding run_extraction_background_def Let_def using e by simp
  next
    case (Exited code)
    then show ?thesis
      unfolding run_extraction_background_def Let_def
      using g by (auto simp: discard_guard split: prod.splits sum.splits option.splits) (metis snd_conv)+
  qed
qed

subsection \<open>The request handler and the guard\<close>

lemma write_metadata_cases:
  obtains (fails) e srv' where "write_metadata job_id metadata artifact_prefix srv = (Inl e, srv')"
      "extracting srv' = extracting srv" "threads srv' = threads srv"
  | (writes) srv' where "write_metadata job_id metadata artifact_prefix srv = (Inr (), srv')"
      "extracting srv' = extracting srv" "threads srv' = threads srv"
proof (cases "write_metadata job_id metadata artifact_prefix srv")
  case (Pair r srv')
  from write_metadata_guard [of job_id metadata artifact_prefix srv] Pair
  have g: "extracting srv' = extracting srv" "threads srv' = threads srv" by simp_all
  show ?thesis
  proof (cases r)
    case (Inl e)
    with Pair g show ?thesis by (intro fails [of e srv']) simp_all
  next
    case (Inr u)
    with Pair g show ?thesis by (intro writes [of srv']) simp_all
  qed
qed

lemma extract_job_in_progress:
  assumes "get_uploaded_file_path job_id (disk srv) = Some input_name" and "job_id \<in> extracting srv"
  shows "extract_job job_id body srv =
           (Inr (ExtractionSummary job_id True
                   ''Extraction already in progress. Poll /job/{id}/progress for status.'' []),
            srv \<lparr> disk := job_output_dir job_id (disk srv) \<rparr>)"
  using assms by (simp add: extract_job_def Let_def)

text \<open>A request for a job that is not in the guard: the guard gets the job, and the
  thread is appended only when both writes succeed.\<close>

lemma extract_job_new:
  assumes up: "get_uploaded_file_path job_id (disk srv) = Some input_name"
    and new: "job_id \<notin> extracting srv"
  shows "extracting (snd (extract_job job_id body srv)) = insert job_id (extracting srv)
         \<and> (threads (snd (extract_job job_id body srv)) = threads srv
              \<or> threads (snd (extract_job job_id body srv)) =
                   threads srv @ [(job_id, input_name, sanitize_stem input_name)])"
proof -
  let ?srv2 = "srv \<lparr> disk := job_output_dir job_id (disk srv), extracting := insert job_id (extracting srv) \<rparr>"
  let ?cfg = "ConfigJson (case body of None \<Rightarrow> [] | Some pc \<Rightarrow> pc)"
  show ?thesis
  proof (cases "write_text job_id ''processing_request.json'' ?cfg (job_output_dir job_id (disk srv))")
    case (Inl e)
    with up new show ?thesis by (simp add: extract_job_def Let_def)
  next
    case (Inr fs)
    let ?srv3 = "?srv2 \<lparr> disk := fs, trace := trace srv @ [ConfigWritten job_id] \<rparr>"
    let ?meta = "\<lparr> m_job_id = job_id, m_filename = input_name, m_status = ''extracting'',
                   m_artifact_prefix = Some (sanitize_stem input_name), m_artifacts = [],
                   m_stats = [], m_error = None, m_created_at = None \<rparr>"
    show ?thesis
    proof (cases job_id ?meta "Some (sanitize_stem input_name)" ?srv3 rule: write_metadata_cases)
      case (fails e srv')
      with up new Inr show ?thesis by (simp add: extract_job_def Let_def)
    next
      case (writes srv')
      with up new Inr show ?thesis by (simp add: extract_job_def Let_def)
    qed
  qed
qed

lemma extract_job_guard:
  "extracting srv \<subseteq> extracting (snd (extract_job job_id body srv))
   \<and> (threads (snd (extract_job job_id body srv)) = threads srv
        \<or> (job_id \<notin> extracting srv
            \<and> job_id \<in> extracting (snd (extract_job job_id body srv))
            \<and> (\<exists>t. fst t = job_id \<and> threads (snd (extract_job job_id body srv)) = threads srv @ [t])))"
proof (cases "get_uploaded_file_path job_id (disk srv)")
  case None
  then show ?thesis by (simp add: extract_job_def)
next
  case (Some input_name)
  show ?thesis
  proof (cases "job_id \<in> extracting srv")
    case True
    with Some show ?thesis by (simp add: extract_job_in_progress)
  next
    case False
    from extract_job_new [OF Some False, of body] False show ?thesis by auto
  qed
qed

subsection \<open>The guard and the threads alive\<close>

lemma guard_inv_request: "guard_inv srv \<Longrightarrow> guard_inv (snd (extract_job job_id body srv))"
proof -
  assume inv: "guard_inv srv"
  let ?srv' = "snd (extract_job job_id body srv)"
  from extract_job_guard [of srv job_id body]
  have mono: "extracting srv \<subseteq> extracting ?srv'"
    and th: "threads ?srv' = threads srv
        \<or> (job_id \<notin> extracting srv \<and> job_id \<in> extracting ?srv'
            \<and> (\<exists>t. fst t = job_id \<and> threads ?srv' = threads srv @ [t]))"
    by blast+
  from th show ?thesis
  proof
    assume "threads ?srv' = threads srv"
    with inv mono show ?thesis by (auto simp: guard_inv_def)
  next
    assume "job_id \<notin> extracting srv \<and> job_id \<in> extracting ?srv'
        \<and> (\<exists>t. fst t = job_id \<and> threads ?srv' = threads srv @ [t])"
    then obtain t where t: "job_id \<notin> extracting srv" "job_id \<in> extracting ?srv'"
        "fst t = job_id" "threads ?srv' = threads srv @ [t]"
      by blast
    from inv t(1) have "job_id \<notin> fst ` set (threads srv)" by (auto simp: guard_inv_def)
    with inv mono t show ?thesis by (auto simp: guard_inv_def)
  qed
qed

lemma guard_inv_thread_ends:
  assumes inv: "guard_inv srv" and i: "i < length (threads srv)"
    and t: "threads srv ! i = (job_id, input_name, prefix')"
  shows "guard_inv (snd (run_extraction_background w job_id input_name prefix'
           (srv \<lparr> threads := take i (threads srv) @ drop (Suc i) (threads srv) \<rparr>)))"
proof -
  let ?rest = "take i (threads srv) @ drop (Suc i) (threads srv)"
  let ?srv0 = "srv \<lparr> threads := ?rest \<rparr>"
  let ?srv' = "snd (run_extraction_background w job_id input_name prefix' ?srv0)"
  from run_extraction_background_guard [of w job_id input_name prefix' ?srv0]
  have th: "threads ?srv' = ?rest" and keep: "extracting srv - {job_id} \<subseteq> extracting ?srv'"
    by simp_all
  have split: "threads srv = take i (threads srv) @ (job_id, input_name, prefix') # drop (Suc i) (threads srv)"
    using i t by (metis id_take_nth_drop)
  from inv have d: "distinct (map fst (threads srv))" by (simp add: guard_inv_def)
  then have "distinct (map fst (take i (threads srv)) @ job_id # map fst (drop (Suc i) (threads srv)))"
    by (subst (asm) split) simp
  then have d': "distinct (map fst ?rest)" and notin: "job_id \<notin> fst ` set ?rest"
    by auto
  have "set ?rest \<subseteq> set (threads srv)"
    by (metis set_append set_take_subset set_drop_subset Un_mono sup.idem)
  with inv have "fst ` set ?rest \<subseteq> extracting srv" by (auto simp: guard_inv_def)
  with notin keep have "fst ` set ?rest \<subseteq> extracting ?srv'" by auto
  with d' th show ?thesis by (simp add: guard_inv_def)
qed

lemma guard_inv_step: "guard_inv srv \<Longrightarrow> guard_inv (sys_step srv a)"
proof (cases a)
  case (Request job_id body)
  assume "guard_inv srv"
  with Request show ?thesis by (simp add: sys_step_def guard_inv_request)
next
  case (ThreadEnds i w)
  assume inv: "guard_inv srv"
  show ?thesis
  proof (cases "i < length (threads srv)")
    case False
    with ThreadEnds inv show ?thesis by (simp add: sys_step_def)
  next
    case True
    obtain job_id input_name prefix' where t: "threads srv ! i = (job_id, input_name, prefix')"
      by (cases "threads srv ! i") auto
    from guard_inv_thread_ends [OF inv True t] ThreadEnds True t show ?thesis
      by (simp add: sys_step_def)
  qed
next
  case (DiskChange f)
  assume "guard_inv srv"
  with DiskChange show ?thesis by (simp add: sys_step_def guard_inv_def)
qed

lemma guard_inv_run: "guard_inv srv \<Longrightarrow> guard_inv (foldl sys_step srv acts)"
  by (induction acts arbitrary: srv) (simp_all add: guard_inv_step)

lemma distinct_filter_eq: "distinct xs \<Longrightarrow> length (filter (\<lambda>j. j = a) xs) \<le> 1"
proof (induction xs)
  case Nil
  show ?case by simp
next
  case (Cons x xs)
  show ?case
  proof (cases "x = a")
    case True
    with Cons.prems have "a \<notin> set xs" by simp
    then have "filter (\<lambda>j. j = a) xs = []" by (auto simp: filter_empty_conv)
    with True show ?thesis by simp
  next
    case False
    with Cons show ?thesis by simp
  qed
qed

lemma guard_inv_one_thread:
  assumes "guard_inv srv"
  shows "length (filter (\<lambda>t. fst t = job_id) (threads srv)) \<le> 1"
proof -
  from assms have "distinct (map fst (threads srv))" by (simp add: guard_inv_def)
  then have "length (filter (\<lambda>j. j = job_id) (map fst (threads srv))) \<le> 1"
    by (rule distinct_filter_eq)
  moreover have "filter (\<lambda>j. j = job_id) (map fst (threads srv)) =
      map fst (filter (\<lambda>t. fst t = job_id) (threads srv))"
    by (simp add: filter_map comp_def)
  ultimately show ?thesis by simp
qed

subsection \<open>The supervising thread, path by path\<close>

lemma exit_code_ignored:
  "run_extraction_background (\<lambda>fs. (Exited code, after fs)) job_id input_name prefix' srv =
   run_extraction_background (\<lambda>fs. (Exited 0, after fs)) job_id input_name prefix' srv"
  by (simp add: run_extraction_background_def)

lemma disk_full_job_output_dir [simp]: "disk_full (job_output_dir job_id fs) = disk_full fs"
  by (simp add: job_output_dir_def)

lemma write_text_full: "disk_full fs \<Longrightarrow> write_text job_id name c fs = Inl OSError"
  by (simp add: write_text_def Let_def)

lemma write_text_free:
  "\<not> disk_full fs \<Longrightarrow> \<exists>fs'. write_text job_id name c fs = Inr fs' \<and> \<not> disk_full fs'"
  by (simp add: write_text_def Let_def job_output_dir_def)

lemma write_metadata_full:
  "disk_full (disk srv) \<Longrightarrow>
     write_metadata job_id metadata artifact_prefix srv =
       (Inl OSError, srv \<lparr> disk := job_output_dir job_id (disk srv) \<rparr>)"
  by (simp add: write_metadata_def Let_def write_text_full)

lemma write_metadata_free:
  assumes "\<not> disk_full (disk srv)"
  shows "\<exists>fs'. write_metadata job_id metadata artifact_prefix srv =
           (Inr (), srv \<lparr> disk := fs', trace := trace srv @ [MetadataWritten job_id (m_status metadata)] \<rparr>)"
proof -
  let ?prefix = "case artifact_prefix of Some p \<Rightarrow> p | None \<Rightarrow> get_artifact_prefix job_id (disk srv)"
  from write_text_free [OF assms, of job_id "?prefix @ ''.metadata.json''" "MetadataJson metadata"]
  obtain fs' where "write_text job_id (?prefix @ ''.metadata.json'') (MetadataJson metadata) (disk srv) = Inr fs'"
    by blast
  then have "write_metadata job_id metadata artifact_prefix srv =
      (Inr (), srv \<lparr> disk := fs', trace := trace srv @ [MetadataWritten job_id (m_status metadata)] \<rparr>)"
    by (simp add: write_metadata_def Let_def)
  then show ?thesis ..
qed

lemma fallback_full:
  "disk_full fs \<Longrightarrow> try_placeholder_fallback job_id prefix' fs = (False, job_output_dir job_id fs)"
  by (simp add: try_placeholder_fallback_def Let_def write_text_full)

lemma fallback_disk_full [simp]:
  "disk_full (snd (try_placeholder_fallback job_id prefix' fs)) = disk_full fs"
  by (auto simp: try_placeholder_fallback_def Let_def write_text_def job_output_dir_def split: sum.splits)

lemma read_metadata_disk_full [simp]: "disk_full (snd (read_metadata job_id fs)) = disk_full fs"
  by (simp add: read_metadata_def Let_def split: option.splits content.splits)

text \<open>
  With a full disk, a worker that times out or whose invocation raises leaves the thread
  with an exception, and the guard is what it was.
\<close>

lemma except_block_full:
  assumes "disk_full (disk srv)"
  shows "fst (except_block job_id input_name prefix' message srv) = Inl OSError
         \<and> extracting (snd (except_block job_id input_name prefix' message srv)) = extracting srv
         \<and> trace (snd (except_block job_id input_name prefix' message srv)) = trace srv @ [FallbackRun job_id]"
  using assms by (simp add: except_block_def Let_def fallback_full write_metadata_full)

text \<open>With a disk that is not full, the block writes the terminal metadata and then
  releases the guard.\<close>

lemma except_block_free:
  assumes "\<not> disk_full (disk srv)"
  shows "fst (except_block job_id input_name prefix' message srv) = Inr ()
         \<and> extracting (snd (except_block job_id input_name prefix' message srv)) = extracting srv - {job_id}
         \<and> (\<exists>st. trace (snd (except_block job_id input_name prefix' message srv)) =
                trace srv @ [FallbackRun job_id, MetadataWritten job_id st, GuardReleased job_id]
                \<and> (st = ''completed'' \<or> st = ''failed''))"
proof -
  let ?fb = "try_placeholder_fallback job_id prefix' (disk srv)"
  let ?srv1 = "srv \<lparr> disk := snd ?fb, trace := trace srv @ [FallbackRun job_id] \<rparr>"
  from assms have free: "\<not> disk_full (disk ?srv1)" by simp
  show ?thesis
  proof (cases "fst ?fb")
    case True
    let ?meta = "\<lparr> m_job_id = job_id, m_filename = input_name, m_status = ''completed'',
                    m_artifact_prefix = Some prefix', m_artifacts = list_artifacts job_id (disk ?srv1),
                    m_stats = [(''fallback'', JBool True), (''num_chunks'', JInt 0)],
                    m_error = None, m_created_at = None \<rparr>"
    from write_metadata_free [OF free, of job_id ?meta "Some prefix'"]
    obtain fs' where "write_metadata job_id ?meta (Some prefix') ?srv1 =
        (Inr (), ?srv1 \<lparr> disk := fs', trace := trace ?srv1 @ [MetadataWritten job_id (m_status ?meta)] \<rparr>)"
      by blast
    with True show ?thesis by (simp add: except_block_def Let_def discard_def)
  next
    case False
    let ?meta = "\<lparr> m_job_id = job_id, m_filename = input_name, m_status = ''failed'',
                    m_artifact_prefix = Some prefix', m_artifacts = list_artifacts job_id (disk ?srv1),
                    m_stats = [], m_error = Some message, m_created_at = None \<rparr>"
    from write_metadata_free [OF free, of job_id ?meta "Some prefix'"]
    obtain fs' where "write_metadata job_id ?meta (Some prefix') ?srv1 =
        (Inr (), ?srv1 \<lparr> disk := fs', trace := trace ?srv1 @ [MetadataWritten job_id (m_status ?meta)] \<rparr>)"
      by blast
    with False show ?thesis by (simp add: except_block_def Let_def discard_def)
  qed
qed

text \<open>After an exit of the worker, with whatever code, the fallback is not run.\<close>

lemma exited_no_fallback:
  "FallbackRun job_id \<notin> set (drop (length (trace srv))
      (trace (snd (run_extraction_background (\<lambda>fs. (Exited code, after fs)) job_id input_name prefix' srv))))"
proof -
  let ?srv1 = "srv \<lparr> disk := after (disk srv), trace := trace srv @ [WorkerRun job_id] \<rparr>"
  let ?srv2 = "?srv1 \<lparr> disk := snd (read_metadata job_id (disk ?srv1)) \<rparr>"
  have wm: "trace (snd (write_metadata job_id metadata (Some prefix') ?srv2)) = trace srv @ [WorkerRun job_id]
      \<or> trace (snd (write_metadata job_id metadata (Some prefix') ?srv2)) =
           trace srv @ [WorkerRun job_id, MetadataWritten job_id (m_status metadata)]"
    for metadata
    by (simp add: write_metadata_def Let_def split: sum.splits)
  have cases: "\<exists>evs. trace (snd (run_extraction_background (\<lambda>fs. (Exited code, after fs))
        job_id input_name prefix' srv)) = trace srv @ evs \<and> FallbackRun job_id \<notin> set evs"
  proof (cases "fst (read_metadata job_id (disk ?srv1))")
    case (Some meta)
    then show ?thesis
      by (simp add: run_extraction_background_def Let_def discard_def)
  next
    case None
    show ?thesis
    proof (cases "has_document job_id (disk ?srv2)")
      case True
      let ?meta = "\<lparr> m_job_id = job_id, m_filename = input_name, m_status = ''completed'',
                      m_artifact_prefix = Some prefix', m_artifacts = list_artifacts job_id (disk ?srv1),
                      m_stats = [], m_error = None, m_created_at = None \<rparr>"
      obtain r srv3 where w: "write_metadata job_id ?meta (Some prefix') ?srv2 = (r, srv3)"
        by (cases "write_metadata job_id ?meta (Some prefix') ?srv2")
      with wm [of ?meta] have "trace srv3 = trace srv @ [WorkerRun job_id]
          \<or> trace srv3 = trace srv @ [WorkerRun job_id, MetadataWritten job_id ''completed'']"
        by simp
      with None True w show ?thesis
        by (cases r) (auto simp: run_extraction_background_def Let_def discard_def)
    next
      case False
      let ?meta = "\<lparr> m_job_id = job_id, m_filename = input_name, m_status = ''failed'',
                      m_artifact_prefix = Some prefix', m_artifacts = list_artifacts job_id (disk ?srv1),
                      m_stats = [],
                      m_error = Some ''Extraction failed. Check docker logs Docling for details.'',
                      m_created_at = None \<rparr>"
      obtain r srv3 where w: "write_metadata job_id ?meta (Some prefix') ?srv2 = (r, srv3)"
        by (cases "write_metadata job_id ?meta (Some prefix') ?srv2")
      with wm [of ?meta] have "trace srv3 = trace srv @ [WorkerRun job_id]
          \<or> trace srv3 = trace srv @ [WorkerRun job_id, MetadataWritten job_id ''failed'']"
        by simp
      with None False w show ?thesis
        by (cases r) (auto simp: run_extraction_background_def Let_def discard_def)
    qed
  qed
  then show ?thesis by auto
qed

text \<open>
  Where no write raises, every path of the supervising thread returns normally and
  releases the guard once, as its last step.
\<close>

lemma supervisor_releases:
  assumes free: "\<not> disk_full (snd (w (disk srv)))"
  shows "fst (run_extraction_background w job_id input_name prefix' srv) = Inr ()
     \<and> extracting (snd (run_extraction_background w job_id input_name prefix' srv)) = extracting srv - {job_id}
     \<and> (\<exists>evs. trace (snd (run_extraction_background w job_id input_name prefix' srv)) =
            trace srv @ WorkerRun job_id # evs @ [GuardReleased job_id]
            \<and> GuardReleased job_id \<notin> set evs)"
proof -
  let ?srv1 = "srv \<lparr> disk := snd (w (disk srv)), trace := trace srv @ [WorkerRun job_id] \<rparr>"
  let ?srv2 = "?srv1 \<lparr> disk := snd (read_metadata job_id (disk ?srv1)) \<rparr>"
  from free have free1: "\<not> disk_full (disk ?srv1)" and free2: "\<not> disk_full (disk ?srv2)" by simp_all
  have blk: "fst (except_block job_id input_name prefix' message ?srv1) = Inr ()
      \<and> extracting (snd (except_block job_id input_name prefix' message ?srv1)) = extracting srv - {job_id}
      \<and> (\<exists>evs. trace (snd (except_block job_id input_name prefix' message ?srv1)) =
            trace srv @ WorkerRun job_id # evs @ [GuardReleased job_id]
            \<and> GuardReleased job_id \<notin> set evs)" for message
  proof -
    from except_block_free [OF free1, of job_id input_name prefix' message]
    obtain st where "fst (except_block job_id input_name prefix' message ?srv1) = Inr ()"
      "extracting (snd (except_block job_id input_name prefix' message ?srv1)) = extracting srv - {job_id}"
      "trace (snd (except_block job_id input_name prefix' message ?srv1)) =
         trace srv @ WorkerRun job_id # [FallbackRun job_id, MetadataWritten job_id st] @ [GuardReleased job_id]"
      by auto
    then show ?thesis by (intro conjI exI [of _ "[FallbackRun job_id, MetadataWritten job_id st]"]) simp_all
  qed
  have wr: "\<exists>fs'. write_metadata job_id metadata (Some prefix') ?srv2 =
      (Inr (), ?srv2 \<lparr> disk := fs', trace := trace ?srv2 @ [MetadataWritten job_id (m_status metadata)] \<rparr>)"
    for metadata
    by (rule write_metadata_free [OF free2])
  show ?thesis
  proof (cases "fst (w (disk srv))")
    case TimeoutExpired
    with blk show ?thesis by (simp add: run_extraction_background_def Let_def)
  next
    case (Raised e)
    with blk show ?thesis by (simp add: run_extraction_background_def Let_def)
  next
    case (Exited code)
    show ?thesis
    proof (cases "fst (read_metadata job_id (disk ?srv1))")
      case (Some meta)
      with Exited show ?thesis
        by (simp add: run_extraction_background_def Let_def discard_def)
    next
      case None
      show ?thesis
      proof (cases "has_document job_id (disk ?srv2)")
        case True
        let ?meta = "\<lparr> m_job_id = job_id, m_filename = input_name, m_status = ''completed'',
                        m_artifact_prefix = Some prefix', m_artifacts = list_artifacts job_id (disk ?srv1),
                        m_stats = [], m_error = None, m_created_at = None \<rparr>"
        from wr [of ?meta] obtain fs' where "write_metadata job_id ?meta (Some prefix') ?srv2 =
            (Inr (), ?srv2 \<lparr> disk := fs', trace := trace ?srv2 @ [MetadataWritten job_id (m_status ?meta)] \<rparr>)"
          by blast
        with Exited None True show ?thesis
          by (simp add: run_extraction_background_def Let_def discard_def)
      next
        case False
        let ?meta = "\<lparr> m_job_id = job_id, m_filename = input_name, m_status = ''failed'',
                        m_artifact_prefix = Some prefix', m_artifacts = list_artifacts job_id (disk ?srv1),
                        m_stats = [],
                        m_error = Some ''Extraction failed. Check docker logs Docling for details.'',
                        m_created_at = None \<rparr>"
        from wr [of ?meta] obtain fs' where "write_metadata job_id ?meta (Some prefix') ?srv2 =
            (Inr (), ?srv2 \<lparr> disk := fs', trace := trace ?srv2 @ [MetadataWritten job_id (m_status ?meta)] \<rparr>)"
          by blast
        with Exited None False show ?thesis
          by (simp add: run_extraction_background_def Let_def discard_def)
      qed
    qed
  qed
qed

text \<open>With a full disk, the paths through an \<open>except\<close> block leave by an exception and
  keep the guard.\<close>

lemma supervisor_keeps_guard:
  assumes "disk_full (snd (w (disk srv)))" and "\<forall>c. fst (w (disk srv)) \<noteq> Exited c"
  shows "fst (run_extraction_background w job_id input_name prefix' srv) = Inl OSError
     \<and> extracting (snd (run_extraction_background w job_id input_name prefix' srv)) = extracting srv"
proof -
  let ?srv1 = "srv \<lparr> disk := snd (w (disk srv)), trace := trace srv @ [WorkerRun job_id] \<rparr>"
  from assms(1) have full: "disk_full (disk ?srv1)" by simp
  from except_block_full [OF full]
  have blk: "fst (except_block job_id input_name prefix' message ?srv1) = Inl OSError
      \<and> extracting (snd (except_block job_id input_name prefix' message ?srv1)) = extracting srv" for message
    by simp
  from assms(2) show ?thesis
    using blk by (cases "fst (w (disk srv))") (simp_all add: run_extraction_background_def Let_def)
qed

section \<open>The token windower on blank input\<close>

text \<open>
  Claim C9.  For every text that is empty or consists of whitespace only,
  \<open>split_to_token_windows\<close> returns the empty list, whatever \<open>target_tokens\<close> and
  \<open>overlap_tokens\<close> are: the first guard of the function returns before the comparison
  of the token estimate with the target is made.
\<close>

theorem blank_text_no_window:
  "\<forall>c\<in>set text. is_space c \<Longrightarrow> split_to_token_windows text target_tokens overlap_tokens = []"
  by (simp add: split_to_token_windows_def strip_Nil_iff)

text \<open>A text of three whitespace characters: its estimate, 1, is below the target 1000.\<close>

theorem blank_text_no_window_witness:
  "is_space (CHR '' '') \<and> is_space (CHR 0x0A) \<and> is_space (CHR 0x09)
   \<and> approx_tokens [CHR '' '', CHR 0x0A, CHR 0x09] \<le> 1000
   \<and> split_to_token_windows [CHR '' '', CHR 0x0A, CHR 0x09] 1000 120 = []"
  using blank_text_no_window [of "[CHR '' '', CHR 0x0A, CHR 0x09]" 1000 120]
  by (simp add: is_space_def approx_tokens_def)

section \<open>The section splitter\<close>

lemma pop_path_Nil: "pop_path [] level = []"
  by (simp add: pop_path.simps)

lemma pop_path_snoc:
  "pop_path (xs @ [x]) level = (if level \<le> fst x then pop_path xs level else xs @ [x])"
  by (subst pop_path.simps) simp

text \<open>
  The header stack is strictly increasing in level from the bottom to the top; on such a
  stack, popping from the top while the top's level is at least the new level removes
  exactly the entries whose level is at least the new level.
\<close>

lemma pop_path_increasing:
  "sorted_wrt (<) (map fst path) \<Longrightarrow> pop_path path level = filter (\<lambda>e. fst e < level) path"
proof (induction path rule: rev_induct)
  case Nil
  show ?case by (simp add: pop_path_Nil)
next
  case (snoc x xs)
  from snoc.prems have sorted_xs: "sorted_wrt (<) (map fst xs)"
    and below: "\<forall>y\<in>set xs. fst y < fst x"
    by (auto simp: sorted_wrt_append)
  show ?case
  proof (cases "level \<le> fst x")
    case True
    with snoc.IH [OF sorted_xs] show ?thesis
      by (simp add: pop_path_snoc)
  next
    case False
    with below have "\<forall>y\<in>set xs. fst y < level" by auto
    then have "filter (\<lambda>e. fst e < level) xs = xs" by simp
    with False show ?thesis
      by (simp add: pop_path_snoc)
  qed
qed

lemma section_line_increasing:
  assumes "sorted_wrt (<) (map fst (current_path st))"
  shows "sorted_wrt (<) (map fst (current_path (section_line st line)))"
proof (cases "parse_header line")
  case None
  with assms show ?thesis by (simp add: section_line_def)
next
  case (Some hdr)
  obtain level group2 where hdr: "hdr = (level, group2)" by (cases hdr)
  have "sorted_wrt (<) (map fst (filter (\<lambda>e. fst e < level) (current_path st)))"
    using assms by (simp add: sorted_wrt_map sorted_wrt_filter)
  then show ?thesis
    using Some hdr assms
    by (auto simp: section_line_def pop_path_increasing sorted_wrt_append)
qed

lemma foldl_section_line_increasing:
  "sorted_wrt (<) (map fst (current_path st)) \<Longrightarrow>
   sorted_wrt (<) (map fst (current_path (foldl section_line st ls)))"
  by (induction ls arbitrary: st) (simp_all add: section_line_increasing)

lemma reachable_path_increasing:
  "sorted_wrt (<) (map fst (current_path (foldl section_line sections_init ls)))"
  by (rule foldl_section_line_increasing) (simp add: sections_init_def)

lemma flush_section_label:
  "flush_section path ls = Some (label, body) \<Longrightarrow> label = join_with '' > '' (map snd path)"
  by (auto simp: flush_section_def Let_def split: if_splits)

lemma iter_sections_scenario:
  "iter_sections ''# Intro\<newline>\<newline>First paragraph.\<newline>\<newline>## Part 2\<newline>\<newline>Second.'' =
     [(''Intro'', ''# Intro\<newline>\<newline>First paragraph.''),
      (''Intro > Part 2'', ''## Part 2\<newline>\<newline>Second.'')]"
  by code_simp

text \<open>
  Claim C6.  The section splitter keeps a stack of (level, title) pairs.  In every state
  the loop reaches (after any lines \<open>ls\<close>), a line that matches the header pattern with
  level \<open>level\<close> flushes the buffer collected so far as a section (a buffer that is empty
  or blank is dropped), leaves on the stack exactly the entries whose level is below
  \<open>level\<close>, pushes the new (level, title) on top and starts the next buffer with the
  header line.  A section that is emitted is labelled with the titles of the stack, bottom
  (outermost) first, joined by \<open>" > "\<close>.  The input of the scenario yields the two sections
  with paths \<open>Intro\<close> and \<open>Intro > Part 2\<close>.
\<close>

theorem section_splitter_stack:
  "(parse_header line = Some (level, group2) \<longrightarrow>
      section_line (foldl section_line sections_init ls) line =
        \<lparr> current_path =
            filter (\<lambda>e. fst e < level) (current_path (foldl section_line sections_init ls))
              @ [(level, strip group2)],
          current_section_lines = [line],
          yielded =
            (case flush_section (current_path (foldl section_line sections_init ls))
                    (current_section_lines (foldl section_line sections_init ls)) of
               None \<Rightarrow> yielded (foldl section_line sections_init ls)
             | Some sec \<Rightarrow> yielded (foldl section_line sections_init ls) @ [sec]) \<rparr>)
   \<and> (flush_section path buf = Some (label, body) \<longrightarrow>
        label = join_with '' > '' (map snd path))
   \<and> map fst (iter_sections ''# Intro\<newline>\<newline>First paragraph.\<newline>\<newline>## Part 2\<newline>\<newline>Second.'') =
        [''Intro'', ''Intro > Part 2'']
   \<and> 2 \<le> length (iter_sections ''# Intro\<newline>\<newline>First paragraph.\<newline>\<newline>## Part 2\<newline>\<newline>Second.'')"
  using reachable_path_increasing [of ls] flush_section_label [of path buf label body]
  by (simp add: section_line_def pop_path_increasing emit_def iter_sections_scenario)

text \<open>
  The stack \<open>[(2, A), (3, B), (4, C)]\<close> is reached after three headers; the header
  \<open>### D\<close> then closes \<open>B\<close> and \<open>C\<close>, keeps \<open>A\<close>, and flushes the section of \<open>C\<close>.
\<close>

theorem section_splitter_stack_witness:
  "parse_header ''### D'' = Some (3, ''D'')
   \<and> current_path (foldl section_line sections_init [''## A'', ''### B'', ''#### C'', ''text'']) =
        [(2, ''A''), (3, ''B''), (4, ''C'')]
   \<and> section_line (foldl section_line sections_init [''## A'', ''### B'', ''#### C'', ''text'']) ''### D'' =
        \<lparr> current_path = [(2, ''A''), (3, ''D'')],
          current_section_lines = [''### D''],
          yielded = [(''A'', ''## A''), (''A > B'', ''### B''), (''A > B > C'', ''#### C\<newline>text'')] \<rparr>
   \<and> flush_section [(2, ''A''), (3, ''B''), (4, ''C'')] [''#### C'', ''text''] =
        Some (''A > B > C'', ''#### C\<newline>text'')
   \<and> ''A > B > C'' = join_with '' > '' (map snd [(2 :: nat, ''A''), (3, ''B''), (4, ''C'')])"
proof -
  have hdr: "parse_header ''### D'' = Some (3, ''D'')"
    by code_simp
  have st: "foldl section_line sections_init [''## A'', ''### B'', ''#### C'', ''text''] =
      \<lparr> current_path = [(2, ''A''), (3, ''B''), (4, ''C'')],
        current_section_lines = [''#### C'', ''text''],
        yielded = [(''A'', ''## A''), (''A > B'', ''### B'')] \<rparr>"
    by code_simp
  have fl: "flush_section [(2, ''A''), (3, ''B''), (4, ''C'')] [''#### C'', ''text''] =
      Some (''A > B > C'', ''#### C\<newline>text'')"
    by code_simp
  have strip_D: "strip ''D'' = ''D''"
    by code_simp
  note inst = section_splitter_stack
    [of "''### D''" 3 "''D''" "[''## A'', ''### B'', ''#### C'', ''text'']"
        "[(2, ''A''), (3, ''B''), (4, ''C'')]" "[''#### C'', ''text'']" "''A > B > C''" "''#### C\<newline>text''"]
  from inst [unfolded st] show ?thesis
    unfolding st by (simp add: hdr fl strip_D)
qed

section \<open>The token budget of a window\<close>

text \<open>
  Eleven paragraphs of four characters, one token each, with target 10 and overlap 1.  The
  first window holds ten paragraphs (tally 10), and its text of 58 characters is
  estimated at 15 tokens.
\<close>

lemma eleven_paragraphs_windows:
  "split_to_token_windows
     ''aaaa\<newline>\<newline>aaaa\<newline>\<newline>aaaa\<newline>\<newline>aaaa\<newline>\<newline>aaaa\<newline>\<newline>aaaa\<newline>\<newline>aaaa\<newline>\<newline>aaaa\<newline>\<newline>aaaa\<newline>\<newline>aaaa\<newline>\<newline>aaaa'' 10 1 =
   [''aaaa\<newline>\<newline>aaaa\<newline>\<newline>aaaa\<newline>\<newline>aaaa\<newline>\<newline>aaaa\<newline>\<newline>aaaa\<newline>\<newline>aaaa\<newline>\<newline>aaaa\<newline>\<newline>aaaa\<newline>\<newline>aaaa'', ''aaaa\<newline>\<newline>aaaa'']"
  by code_simp

lemma eleven_paragraphs_buffers:
  "emitted_buffers 10 1 windows_init (re_split_par [] ''aaaa\<newline>\<newline>aaaa\<newline>\<newline>aaaa\<newline>\<newline>aaaa\<newline>\<newline>aaaa\<newline>\<newline>aaaa\<newline>\<newline>aaaa\<newline>\<newline>aaaa\<newline>\<newline>aaaa\<newline>\<newline>aaaa\<newline>\<newline>aaaa'') =
   [[''aaaa'', ''aaaa'', ''aaaa'', ''aaaa'', ''aaaa'', ''aaaa'', ''aaaa'', ''aaaa'', ''aaaa'', ''aaaa''], [''aaaa'', ''aaaa'']]"
  by code_simp

lemma ten_paragraphs_split:
  "re_split_par [] ''aaaa\<newline>\<newline>aaaa\<newline>\<newline>aaaa\<newline>\<newline>aaaa\<newline>\<newline>aaaa\<newline>\<newline>aaaa\<newline>\<newline>aaaa\<newline>\<newline>aaaa\<newline>\<newline>aaaa\<newline>\<newline>aaaa'' =
   [''aaaa'', ''aaaa'', ''aaaa'', ''aaaa'', ''aaaa'', ''aaaa'', ''aaaa'', ''aaaa'', ''aaaa'', ''aaaa'']"
  by code_simp

lemma ten_paragraphs_text:
  "window_text [''aaaa'', ''aaaa'', ''aaaa'', ''aaaa'', ''aaaa'', ''aaaa'', ''aaaa'', ''aaaa'', ''aaaa'', ''aaaa''] =
   ''aaaa\<newline>\<newline>aaaa\<newline>\<newline>aaaa\<newline>\<newline>aaaa\<newline>\<newline>aaaa\<newline>\<newline>aaaa\<newline>\<newline>aaaa\<newline>\<newline>aaaa\<newline>\<newline>aaaa\<newline>\<newline>aaaa''"
  by code_simp

text \<open>
  Claim C4, as stated, fails: with \<open>overlap_tokens = 1 < target_tokens = 10\<close>, the first
  window returned consists of ten paragraphs of one token each (so it is no window of a
  single oversized paragraph), and its estimate is 15, beyond the target by half of it.
\<close>

theorem window_budget_counterexample:
  "(1 :: int) < 10
   \<and> ''aaaa\<newline>\<newline>aaaa\<newline>\<newline>aaaa\<newline>\<newline>aaaa\<newline>\<newline>aaaa\<newline>\<newline>aaaa\<newline>\<newline>aaaa\<newline>\<newline>aaaa\<newline>\<newline>aaaa\<newline>\<newline>aaaa''
        \<in> set (split_to_token_windows ''aaaa\<newline>\<newline>aaaa\<newline>\<newline>aaaa\<newline>\<newline>aaaa\<newline>\<newline>aaaa\<newline>\<newline>aaaa\<newline>\<newline>aaaa\<newline>\<newline>aaaa\<newline>\<newline>aaaa\<newline>\<newline>aaaa\<newline>\<newline>aaaa'' 10 1)
   \<and> re_split_par [] ''aaaa\<newline>\<newline>aaaa\<newline>\<newline>aaaa\<newline>\<newline>aaaa\<newline>\<newline>aaaa\<newline>\<newline>aaaa\<newline>\<newline>aaaa\<newline>\<newline>aaaa\<newline>\<newline>aaaa\<newline>\<newline>aaaa'' =
        [''aaaa'', ''aaaa'', ''aaaa'', ''aaaa'', ''aaaa'', ''aaaa'', ''aaaa'', ''aaaa'', ''aaaa'', ''aaaa'']
   \<and> approx_tokens ''aaaa'' = 1
   \<and> approx_tokens ''aaaa\<newline>\<newline>aaaa\<newline>\<newline>aaaa\<newline>\<newline>aaaa\<newline>\<newline>aaaa\<newline>\<newline>aaaa\<newline>\<newline>aaaa\<newline>\<newline>aaaa\<newline>\<newline>aaaa\<newline>\<newline>aaaa'' = 15
   \<and> \<not> approx_tokens ''aaaa\<newline>\<newline>aaaa\<newline>\<newline>aaaa\<newline>\<newline>aaaa\<newline>\<newline>aaaa\<newline>\<newline>aaaa\<newline>\<newline>aaaa\<newline>\<newline>aaaa\<newline>\<newline>aaaa\<newline>\<newline>aaaa'' \<le> 10 + 1"
  by (intro conjI; code_simp)

text \<open>
  Claim C4, amended.  The budget is applied to the sum of the token estimates of the
  paragraphs of a buffer (its tally); the blank lines that join them are not counted.
  For every text and all budgets, every window returned satisfies one of:
  \<^item> its estimate is at most \<open>target_tokens\<close> (the text that fits as a whole);
  \<^item> it is the text of an emitted buffer whose tally is at most \<open>target_tokens\<close>, and
    its estimate is at most \<open>target_tokens + target_tokens div 2\<close>;
  \<^item> it is the text of an emitted buffer that consists of the overlap seed of the buffer
    emitted before it (nothing, for the first buffer) and exactly one more paragraph.
\<close>

theorem window_budget:
  fixes doc :: string and target_tokens overlap_tokens :: int
  defines "bufs \<equiv> emitted_buffers target_tokens overlap_tokens windows_init (re_split_par [] doc)"
  assumes w: "w \<in> set (split_to_token_windows doc target_tokens overlap_tokens)"
  shows "approx_tokens w \<le> target_tokens
     \<or> (\<exists>i<length bufs. w = window_text (bufs ! i)
            \<and> tally (bufs ! i) \<le> target_tokens
            \<and> approx_tokens w \<le> target_tokens + target_tokens div 2)
     \<or> (\<exists>i<length bufs. \<exists>p. w = window_text (bufs ! i)
            \<and> bufs ! i = (if i = 0 then [] else overlap_seed overlap_tokens (bufs ! (i - 1))) @ [p])"
proof (cases "approx_tokens doc \<le> target_tokens")
  case True
  with w have "w = strip doc"
    by (auto simp: split_to_token_windows_def split: if_splits)
  with True approx_tokens_strip_le [of doc] show ?thesis by simp
next
  case False
  from w have ne: "strip doc \<noteq> []"
    by (auto simp: split_to_token_windows_def split: if_splits)
  with False have "split_to_token_windows doc target_tokens overlap_tokens = map window_text bufs"
    unfolding bufs_def by (intro split_to_token_windows_long) simp_all
  with w obtain i where i: "i < length bufs" "w = window_text (bufs ! i)"
    by (auto simp: in_set_conv_nth)
  have chain: "budget_chain target_tokens overlap_tokens [] bufs"
    unfolding bufs_def by (rule emitted_budget_chain [OF loop_inv_init])
  from budget_chain_nth [OF chain i(1)]
  have fol: "follows target_tokens overlap_tokens (if i = 0 then [] else bufs ! (i - 1)) (bufs ! i)" .
  have nb: "\<forall>p\<in>set (bufs ! i). strip p \<noteq> []"
    using emitted_nonblank [OF loop_inv_init, of "bufs ! i" target_tokens overlap_tokens "re_split_par [] doc"] i(1)
    by (simp add: bufs_def)
  from follows_budget [OF fol nb]
  show ?thesis
  proof
    assume "\<exists>p. bufs ! i = overlap_seed overlap_tokens (if i = 0 then [] else bufs ! (i - 1)) @ [p]"
    then obtain p where
      "bufs ! i = (if i = 0 then [] else overlap_seed overlap_tokens (bufs ! (i - 1))) @ [p]"
      by (cases "i = 0") auto
    with i show ?thesis by blast
  next
    assume "tally (bufs ! i) \<le> target_tokens
      \<and> approx_tokens (window_text (bufs ! i)) \<le> target_tokens + target_tokens div 2"
    with i show ?thesis by blast
  qed
qed

text \<open>The first window of the eleven paragraphs: the second case, with estimate 15.\<close>

theorem window_budget_witness:
  "''aaaa\<newline>\<newline>aaaa\<newline>\<newline>aaaa\<newline>\<newline>aaaa\<newline>\<newline>aaaa\<newline>\<newline>aaaa\<newline>\<newline>aaaa\<newline>\<newline>aaaa\<newline>\<newline>aaaa\<newline>\<newline>aaaa''
     \<in> set (split_to_token_windows ''aaaa\<newline>\<newline>aaaa\<newline>\<newline>aaaa\<newline>\<newline>aaaa\<newline>\<newline>aaaa\<newline>\<newline>aaaa\<newline>\<newline>aaaa\<newline>\<newline>aaaa\<newline>\<newline>aaaa\<newline>\<newline>aaaa\<newline>\<newline>aaaa'' 10 1)
   \<and> \<not> approx_tokens ''aaaa\<newline>\<newline>aaaa\<newline>\<newline>aaaa\<newline>\<newline>aaaa\<newline>\<newline>aaaa\<newline>\<newline>aaaa\<newline>\<newline>aaaa\<newline>\<newline>aaaa\<newline>\<newline>aaaa\<newline>\<newline>aaaa'' \<le> 10
   \<and> emitted_buffers 10 1 windows_init (re_split_par [] ''aaaa\<newline>\<newline>aaaa\<newline>\<newline>aaaa\<newline>\<newline>aaaa\<newline>\<newline>aaaa\<newline>\<newline>aaaa\<newline>\<newline>aaaa\<newline>\<newline>aaaa\<newline>\<newline>aaaa\<newline>\<newline>aaaa\<newline>\<newline>aaaa'') ! 0 =
        [''aaaa'', ''aaaa'', ''aaaa'', ''aaaa'', ''aaaa'', ''aaaa'', ''aaaa'', ''aaaa'', ''aaaa'', ''aaaa'']
   \<and> tally [''aaaa'', ''aaaa'', ''aaaa'', ''aaaa'', ''aaaa'', ''aaaa'', ''aaaa'', ''aaaa'', ''aaaa'', ''aaaa''] = 10
   \<and> approx_tokens ''aaaa\<newline>\<newline>aaaa\<newline>\<newline>aaaa\<newline>\<newline>aaaa\<newline>\<newline>aaaa\<newline>\<newline>aaaa\<newline>\<newline>aaaa\<newline>\<newline>aaaa\<newline>\<newline>aaaa\<newline>\<newline>aaaa'' \<le> 10 + 10 div 2"
proof -
  have mem: "''aaaa\<newline>\<newline>aaaa\<newline>\<newline>aaaa\<newline>\<newline>aaaa\<newline>\<newline>aaaa\<newline>\<newline>aaaa\<newline>\<newline>aaaa\<newline>\<newline>aaaa\<newline>\<newline>aaaa\<newline>\<newline>aaaa''
      \<in> set (split_to_token_windows ''aaaa\<newline>\<newline>aaaa\<newline>\<newline>aaaa\<newline>\<newline>aaaa\<newline>\<newline>aaaa\<newline>\<newline>aaaa\<newline>\<newline>aaaa\<newline>\<newline>aaaa\<newline>\<newline>aaaa\<newline>\<newline>aaaa\<newline>\<newline>aaaa'' 10 1)"
    unfolding eleven_paragraphs_windows by simp
  have over: "\<not> approx_tokens ''aaaa\<newline>\<newline>aaaa\<newline>\<newline>aaaa\<newline>\<newline>aaaa\<newline>\<newline>aaaa\<newline>\<newline>aaaa\<newline>\<newline>aaaa\<newline>\<newline>aaaa\<newline>\<newline>aaaa\<newline>\<newline>aaaa'' \<le> 10"
    by (simp add: approx_tokens_def)
  have first: "emitted_buffers 10 1 windows_init (re_split_par [] ''aaaa\<newline>\<newline>aaaa\<newline>\<newline>aaaa\<newline>\<newline>aaaa\<newline>\<newline>aaaa\<newline>\<newline>aaaa\<newline>\<newline>aaaa\<newline>\<newline>aaaa\<newline>\<newline>aaaa\<newline>\<newline>aaaa\<newline>\<newline>aaaa'') ! 0 =
      [''aaaa'', ''aaaa'', ''aaaa'', ''aaaa'', ''aaaa'', ''aaaa'', ''aaaa'', ''aaaa'', ''aaaa'', ''aaaa'']"
    unfolding eleven_paragraphs_buffers by simp
  have tal: "tally [''aaaa'', ''aaaa'', ''aaaa'', ''aaaa'', ''aaaa'', ''aaaa'', ''aaaa'', ''aaaa'', ''aaaa'', ''aaaa''] = 10"
    by (simp add: tally_def approx_tokens_def)
  have bound: "approx_tokens ''aaaa\<newline>\<newline>aaaa\<newline>\<newline>aaaa\<newline>\<newline>aaaa\<newline>\<newline>aaaa\<newline>\<newline>aaaa\<newline>\<newline>aaaa\<newline>\<newline>aaaa\<newline>\<newline>aaaa\<newline>\<newline>aaaa'' \<le> 10 + 10 div 2"
    by (simp add: approx_tokens_def)
  show ?thesis
    using window_budget [OF mem] mem over first tal bound
    by - (intro conjI; assumption)
qed

section \<open>The overlap between consecutive windows\<close>

text \<open>
  Claim C5.  For a text whose estimate exceeds \<open>target_tokens\<close>, the windows are the
  texts (paragraphs joined by a blank line, trimmed) of the buffers emitted while the loop
  runs over the blank-line-separated paragraphs.  In every state \<open>st\<close> the loop reaches
  the running tally is the token sum of the buffer; when a non-blank paragraph would push
  the tally over \<open>target_tokens\<close> and the buffer is not empty, the step emits the buffer
  as a window, makes the next buffer the overlap seed followed by the paragraph, and makes
  the tally the token sum of the seed plus the paragraph's tokens.  The seed is taken
  from the end of the emitted buffer in the original order: it is a non-empty suffix of
  the buffer, it is the whole buffer or its token sum reaches \<open>overlap_tokens\<close>, and
  without its first paragraph it is empty or its token sum is below \<open>overlap_tokens\<close> (the
  walk stops at the first paragraph at which the sum reaches the overlap).  So every
  emitted buffer after the first starts with a non-empty suffix of the buffer before it.
  For target 50, overlap 5 and 500 paragraphs \<open>A\<close> joined by blank lines there are 11
  windows of 50 paragraphs each, and each buffer after the first starts with the last five
  paragraphs of the buffer before it.
\<close>

theorem windower_overlap:
  fixes doc para :: string and paras :: "string list" and target_tokens overlap_tokens :: int
  defines "st \<equiv> foldl (window_para target_tokens overlap_tokens) windows_init paras"
  defines "seed \<equiv> overlap_seed overlap_tokens (current st)"
  defines "bufs \<equiv> emitted_buffers target_tokens overlap_tokens windows_init (re_split_par [] doc)"
  shows
    "(strip doc \<noteq> [] \<and> target_tokens < approx_tokens doc \<longrightarrow>
        split_to_token_windows doc target_tokens overlap_tokens = map window_text bufs
        \<and> (\<forall>i. 0 < i \<and> i < length bufs \<longrightarrow>
              (\<exists>new. bufs ! i = overlap_seed overlap_tokens (bufs ! (i - 1)) @ new)
              \<and> overlap_seed overlap_tokens (bufs ! (i - 1)) \<noteq> []
              \<and> suffix (overlap_seed overlap_tokens (bufs ! (i - 1))) (bufs ! (i - 1))))
     \<and> current_tokens st = tally (current st)
     \<and> (strip para \<noteq> [] \<and> target_tokens < current_tokens st + approx_tokens para \<and> current st \<noteq> [] \<longrightarrow>
          window_para target_tokens overlap_tokens st para =
            \<lparr> windows = windows st @ [window_text (current st)],
              current = seed @ [para],
              current_tokens = tally seed + approx_tokens para \<rparr>
          \<and> suffix seed (current st) \<and> seed \<noteq> []
          \<and> (seed = current st \<or> overlap_tokens \<le> tally seed)
          \<and> (tl seed \<noteq> [] \<longrightarrow> tally (tl seed) < overlap_tokens))
     \<and> 2 \<le> length (split_to_token_windows (join_with [CHR 0x0A, CHR 0x0A] (replicate 500 ''A'')) 50 5)
     \<and> split_to_token_windows (join_with [CHR 0x0A, CHR 0x0A] (replicate 500 ''A'')) 50 5 = replicate 11 (window_text (replicate 50 ''A''))
     \<and> emitted_buffers 50 5 windows_init (re_split_par [] (join_with [CHR 0x0A, CHR 0x0A] (replicate 500 ''A''))) = replicate 11 (replicate 50 ''A'')
     \<and> overlap_seed 5 (replicate 50 ''A'') = replicate 5 ''A''"
proof -
  have long: "strip doc \<noteq> [] \<and> target_tokens < approx_tokens doc \<longrightarrow>
        split_to_token_windows doc target_tokens overlap_tokens = map window_text bufs
        \<and> (\<forall>i. 0 < i \<and> i < length bufs \<longrightarrow>
              (\<exists>new. bufs ! i = overlap_seed overlap_tokens (bufs ! (i - 1)) @ new)
              \<and> overlap_seed overlap_tokens (bufs ! (i - 1)) \<noteq> []
              \<and> suffix (overlap_seed overlap_tokens (bufs ! (i - 1))) (bufs ! (i - 1)))"
    unfolding bufs_def using emitted_overlap split_to_token_windows_long by blast
  have tal: "current_tokens st = tally (current st)"
    unfolding st_def by (rule reachable_tally)
  have step: "strip para \<noteq> [] \<and> target_tokens < current_tokens st + approx_tokens para \<and> current st \<noteq> [] \<longrightarrow>
          window_para target_tokens overlap_tokens st para =
            \<lparr> windows = windows st @ [window_text (current st)],
              current = seed @ [para],
              current_tokens = tally seed + approx_tokens para \<rparr>
          \<and> suffix seed (current st) \<and> seed \<noteq> []
          \<and> (seed = current st \<or> overlap_tokens \<le> tally seed)
          \<and> (tl seed \<noteq> [] \<longrightarrow> tally (tl seed) < overlap_tokens)"
    unfolding seed_def st_def
    using reachable_emit [of para target_tokens overlap_tokens paras]
      overlap_seed_shape [of overlap_tokens
        "current (foldl (window_para target_tokens overlap_tokens) windows_init paras)"]
    by blast
  have split500: "re_split_par [] (join_with [CHR 0x0A, CHR 0x0A] (replicate 500 ''A'')) = replicate 500 ''A''"
    using re_split_par_A [of "[]" 499] by (simp flip: replicate_Suc)
  have bufs500: "emitted_buffers 50 5 windows_init (re_split_par [] (join_with [CHR 0x0A, CHR 0x0A] (replicate 500 ''A''))) = replicate 11 (replicate 50 ''A'')"
    unfolding split500 by (rule emitted_A_500)
  have seed500: "overlap_seed 5 (replicate 50 ''A'') = replicate 5 ''A''"
    by (rule overlap_seed_A) simp
  have len500: "2 \<le> length (split_to_token_windows (join_with [CHR 0x0A, CHR 0x0A] (replicate 500 ''A'')) 50 5)"
    unfolding windows_A_500 by simp
  from long tal step len500 windows_A_500 bufs500 seed500 show ?thesis
    by - (intro conjI; assumption)
qed


text \<open>
  Eleven paragraphs of one token each, target 10 and overlap 2: after ten paragraphs the
  buffer is full, the eleventh emits it and the next buffer starts with its last two
  paragraphs.
\<close>

theorem windower_overlap_witness:
  "strip ''aaaa\<newline>\<newline>aaaa\<newline>\<newline>aaaa\<newline>\<newline>aaaa\<newline>\<newline>aaaa\<newline>\<newline>aaaa\<newline>\<newline>aaaa\<newline>\<newline>aaaa\<newline>\<newline>aaaa\<newline>\<newline>aaaa\<newline>\<newline>aaaa'' \<noteq> [] \<and> 10 < approx_tokens ''aaaa\<newline>\<newline>aaaa\<newline>\<newline>aaaa\<newline>\<newline>aaaa\<newline>\<newline>aaaa\<newline>\<newline>aaaa\<newline>\<newline>aaaa\<newline>\<newline>aaaa\<newline>\<newline>aaaa\<newline>\<newline>aaaa\<newline>\<newline>aaaa''
   \<and> split_to_token_windows ''aaaa\<newline>\<newline>aaaa\<newline>\<newline>aaaa\<newline>\<newline>aaaa\<newline>\<newline>aaaa\<newline>\<newline>aaaa\<newline>\<newline>aaaa\<newline>\<newline>aaaa\<newline>\<newline>aaaa\<newline>\<newline>aaaa\<newline>\<newline>aaaa'' 10 2 = [''aaaa\<newline>\<newline>aaaa\<newline>\<newline>aaaa\<newline>\<newline>aaaa\<newline>\<newline>aaaa\<newline>\<newline>aaaa\<newline>\<newline>aaaa\<newline>\<newline>aaaa\<newline>\<newline>aaaa\<newline>\<newline>aaaa'', ''aaaa\<newline>\<newline>aaaa\<newline>\<newline>aaaa'']
   \<and> emitted_buffers 10 2 windows_init (re_split_par [] ''aaaa\<newline>\<newline>aaaa\<newline>\<newline>aaaa\<newline>\<newline>aaaa\<newline>\<newline>aaaa\<newline>\<newline>aaaa\<newline>\<newline>aaaa\<newline>\<newline>aaaa\<newline>\<newline>aaaa\<newline>\<newline>aaaa\<newline>\<newline>aaaa'') = [[''aaaa'', ''aaaa'', ''aaaa'', ''aaaa'', ''aaaa'', ''aaaa'', ''aaaa'', ''aaaa'', ''aaaa'', ''aaaa''], [''aaaa'', ''aaaa'', ''aaaa'']]
   \<and> [''aaaa'', ''aaaa'', ''aaaa''] = overlap_seed 2 [''aaaa'', ''aaaa'', ''aaaa'', ''aaaa'', ''aaaa'', ''aaaa'', ''aaaa'', ''aaaa'', ''aaaa'', ''aaaa''] @ [''aaaa'']
   \<and> suffix (overlap_seed 2 [''aaaa'', ''aaaa'', ''aaaa'', ''aaaa'', ''aaaa'', ''aaaa'', ''aaaa'', ''aaaa'', ''aaaa'', ''aaaa'']) [''aaaa'', ''aaaa'', ''aaaa'', ''aaaa'', ''aaaa'', ''aaaa'', ''aaaa'', ''aaaa'', ''aaaa'', ''aaaa'']
   \<and> current (foldl (window_para 10 2) windows_init [''aaaa'', ''aaaa'', ''aaaa'', ''aaaa'', ''aaaa'', ''aaaa'', ''aaaa'', ''aaaa'', ''aaaa'', ''aaaa'']) = [''aaaa'', ''aaaa'', ''aaaa'', ''aaaa'', ''aaaa'', ''aaaa'', ''aaaa'', ''aaaa'', ''aaaa'', ''aaaa'']
   \<and> current_tokens (foldl (window_para 10 2) windows_init [''aaaa'', ''aaaa'', ''aaaa'', ''aaaa'', ''aaaa'', ''aaaa'', ''aaaa'', ''aaaa'', ''aaaa'', ''aaaa'']) = 10
   \<and> strip ''aaaa'' \<noteq> [] \<and> approx_tokens ''aaaa'' = 1
   \<and> window_para 10 2 (foldl (window_para 10 2) windows_init [''aaaa'', ''aaaa'', ''aaaa'', ''aaaa'', ''aaaa'', ''aaaa'', ''aaaa'', ''aaaa'', ''aaaa'', ''aaaa'']) ''aaaa'' =
        \<lparr> windows = [''aaaa\<newline>\<newline>aaaa\<newline>\<newline>aaaa\<newline>\<newline>aaaa\<newline>\<newline>aaaa\<newline>\<newline>aaaa\<newline>\<newline>aaaa\<newline>\<newline>aaaa\<newline>\<newline>aaaa\<newline>\<newline>aaaa''], current = [''aaaa'', ''aaaa'', ''aaaa''], current_tokens = 3 \<rparr>
   \<and> overlap_seed 2 [''aaaa'', ''aaaa'', ''aaaa'', ''aaaa'', ''aaaa'', ''aaaa'', ''aaaa'', ''aaaa'', ''aaaa'', ''aaaa''] = [''aaaa'', ''aaaa'']
   \<and> tl [''aaaa'', ''aaaa''] \<noteq> [] \<and> tally (tl [''aaaa'', ''aaaa'']) < 2"
proof -
  note inst = windower_overlap [where doc = "''aaaa\<newline>\<newline>aaaa\<newline>\<newline>aaaa\<newline>\<newline>aaaa\<newline>\<newline>aaaa\<newline>\<newline>aaaa\<newline>\<newline>aaaa\<newline>\<newline>aaaa\<newline>\<newline>aaaa\<newline>\<newline>aaaa\<newline>\<newline>aaaa''" and target_tokens = 10 and overlap_tokens = 2
      and paras = "[''aaaa'', ''aaaa'', ''aaaa'', ''aaaa'', ''aaaa'', ''aaaa'', ''aaaa'', ''aaaa'', ''aaaa'', ''aaaa'']" and para = "''aaaa''"]
  have st: "foldl (window_para 10 2) windows_init [''aaaa'', ''aaaa'', ''aaaa'', ''aaaa'', ''aaaa'', ''aaaa'', ''aaaa'', ''aaaa'', ''aaaa'', ''aaaa''] =
      \<lparr> windows = [], current = [''aaaa'', ''aaaa'', ''aaaa'', ''aaaa'', ''aaaa'', ''aaaa'', ''aaaa'', ''aaaa'', ''aaaa'', ''aaaa''], current_tokens = 10 \<rparr>"
    by code_simp
  have bufs: "emitted_buffers 10 2 windows_init (re_split_par [] ''aaaa\<newline>\<newline>aaaa\<newline>\<newline>aaaa\<newline>\<newline>aaaa\<newline>\<newline>aaaa\<newline>\<newline>aaaa\<newline>\<newline>aaaa\<newline>\<newline>aaaa\<newline>\<newline>aaaa\<newline>\<newline>aaaa\<newline>\<newline>aaaa'') = [[''aaaa'', ''aaaa'', ''aaaa'', ''aaaa'', ''aaaa'', ''aaaa'', ''aaaa'', ''aaaa'', ''aaaa'', ''aaaa''], [''aaaa'', ''aaaa'', ''aaaa'']]"
    by code_simp
  have seed: "overlap_seed 2 [''aaaa'', ''aaaa'', ''aaaa'', ''aaaa'', ''aaaa'', ''aaaa'', ''aaaa'', ''aaaa'', ''aaaa'', ''aaaa''] = [''aaaa'', ''aaaa'']"
    by code_simp
  have doc: "strip ''aaaa\<newline>\<newline>aaaa\<newline>\<newline>aaaa\<newline>\<newline>aaaa\<newline>\<newline>aaaa\<newline>\<newline>aaaa\<newline>\<newline>aaaa\<newline>\<newline>aaaa\<newline>\<newline>aaaa\<newline>\<newline>aaaa\<newline>\<newline>aaaa'' \<noteq> []" "10 < approx_tokens ''aaaa\<newline>\<newline>aaaa\<newline>\<newline>aaaa\<newline>\<newline>aaaa\<newline>\<newline>aaaa\<newline>\<newline>aaaa\<newline>\<newline>aaaa\<newline>\<newline>aaaa\<newline>\<newline>aaaa\<newline>\<newline>aaaa\<newline>\<newline>aaaa''"
    by code_simp+
  have para: "strip ''aaaa'' \<noteq> []" "approx_tokens ''aaaa'' = 1"
    by code_simp+
  have wt: "window_text [''aaaa'', ''aaaa'', ''aaaa'', ''aaaa'', ''aaaa'', ''aaaa'', ''aaaa'', ''aaaa'', ''aaaa'', ''aaaa''] = ''aaaa\<newline>\<newline>aaaa\<newline>\<newline>aaaa\<newline>\<newline>aaaa\<newline>\<newline>aaaa\<newline>\<newline>aaaa\<newline>\<newline>aaaa\<newline>\<newline>aaaa\<newline>\<newline>aaaa\<newline>\<newline>aaaa''" "window_text [''aaaa'', ''aaaa'', ''aaaa''] = ''aaaa\<newline>\<newline>aaaa\<newline>\<newline>aaaa''"
    by code_simp+
  have tal: "tally [''aaaa'', ''aaaa''] = 2" "tally [''aaaa''] < 2"
    by (simp_all add: approx_tokens_def)
  from inst doc have "split_to_token_windows ''aaaa\<newline>\<newline>aaaa\<newline>\<newline>aaaa\<newline>\<newline>aaaa\<newline>\<newline>aaaa\<newline>\<newline>aaaa\<newline>\<newline>aaaa\<newline>\<newline>aaaa\<newline>\<newline>aaaa\<newline>\<newline>aaaa\<newline>\<newline>aaaa'' 10 2 =
      map window_text (emitted_buffers 10 2 windows_init (re_split_par [] ''aaaa\<newline>\<newline>aaaa\<newline>\<newline>aaaa\<newline>\<newline>aaaa\<newline>\<newline>aaaa\<newline>\<newline>aaaa\<newline>\<newline>aaaa\<newline>\<newline>aaaa\<newline>\<newline>aaaa\<newline>\<newline>aaaa\<newline>\<newline>aaaa''))"
    by blast
  then have ws: "split_to_token_windows ''aaaa\<newline>\<newline>aaaa\<newline>\<newline>aaaa\<newline>\<newline>aaaa\<newline>\<newline>aaaa\<newline>\<newline>aaaa\<newline>\<newline>aaaa\<newline>\<newline>aaaa\<newline>\<newline>aaaa\<newline>\<newline>aaaa\<newline>\<newline>aaaa'' 10 2 = [''aaaa\<newline>\<newline>aaaa\<newline>\<newline>aaaa\<newline>\<newline>aaaa\<newline>\<newline>aaaa\<newline>\<newline>aaaa\<newline>\<newline>aaaa\<newline>\<newline>aaaa\<newline>\<newline>aaaa\<newline>\<newline>aaaa'', ''aaaa\<newline>\<newline>aaaa\<newline>\<newline>aaaa'']"
    unfolding bufs by (simp add: wt)
  from inst [unfolded st bufs] doc have "\<forall>i. 0 < i \<and> i < length [[''aaaa'', ''aaaa'', ''aaaa'', ''aaaa'', ''aaaa'', ''aaaa'', ''aaaa'', ''aaaa'', ''aaaa'', ''aaaa''], [''aaaa'', ''aaaa'', ''aaaa'']] \<longrightarrow>
      (\<exists>new. [[''aaaa'', ''aaaa'', ''aaaa'', ''aaaa'', ''aaaa'', ''aaaa'', ''aaaa'', ''aaaa'', ''aaaa'', ''aaaa''], [''aaaa'', ''aaaa'', ''aaaa'']] ! i = overlap_seed 2 ([[''aaaa'', ''aaaa'', ''aaaa'', ''aaaa'', ''aaaa'', ''aaaa'', ''aaaa'', ''aaaa'', ''aaaa'', ''aaaa''], [''aaaa'', ''aaaa'', ''aaaa'']] ! (i - 1)) @ new)
      \<and> overlap_seed 2 ([[''aaaa'', ''aaaa'', ''aaaa'', ''aaaa'', ''aaaa'', ''aaaa'', ''aaaa'', ''aaaa'', ''aaaa'', ''aaaa''], [''aaaa'', ''aaaa'', ''aaaa'']] ! (i - 1)) \<noteq> []
      \<and> suffix (overlap_seed 2 ([[''aaaa'', ''aaaa'', ''aaaa'', ''aaaa'', ''aaaa'', ''aaaa'', ''aaaa'', ''aaaa'', ''aaaa'', ''aaaa''], [''aaaa'', ''aaaa'', ''aaaa'']] ! (i - 1))) ([[''aaaa'', ''aaaa'', ''aaaa'', ''aaaa'', ''aaaa'', ''aaaa'', ''aaaa'', ''aaaa'', ''aaaa'', ''aaaa''], [''aaaa'', ''aaaa'', ''aaaa'']] ! (i - 1))"
    by blast
  from this [rule_format, of 1] have suf: "suffix (overlap_seed 2 [''aaaa'', ''aaaa'', ''aaaa'', ''aaaa'', ''aaaa'', ''aaaa'', ''aaaa'', ''aaaa'', ''aaaa'', ''aaaa'']) [''aaaa'', ''aaaa'', ''aaaa'', ''aaaa'', ''aaaa'', ''aaaa'', ''aaaa'', ''aaaa'', ''aaaa'', ''aaaa'']"
    by simp
  have second: "[''aaaa'', ''aaaa'', ''aaaa''] = overlap_seed 2 [''aaaa'', ''aaaa'', ''aaaa'', ''aaaa'', ''aaaa'', ''aaaa'', ''aaaa'', ''aaaa'', ''aaaa'', ''aaaa''] @ [''aaaa'']"
    unfolding seed by simp
  have hyp: "strip ''aaaa'' \<noteq> [] \<and> 10 < (10 :: int) + approx_tokens ''aaaa'' \<and> [''aaaa'', ''aaaa'', ''aaaa'', ''aaaa'', ''aaaa'', ''aaaa'', ''aaaa'', ''aaaa'', ''aaaa'', ''aaaa''] \<noteq> []"
    using para by simp
  from inst [unfolded st] hyp have "window_para 10 2 \<lparr> windows = [], current = [''aaaa'', ''aaaa'', ''aaaa'', ''aaaa'', ''aaaa'', ''aaaa'', ''aaaa'', ''aaaa'', ''aaaa'', ''aaaa''], current_tokens = 10 \<rparr> ''aaaa'' =
      \<lparr> windows = [] @ [window_text [''aaaa'', ''aaaa'', ''aaaa'', ''aaaa'', ''aaaa'', ''aaaa'', ''aaaa'', ''aaaa'', ''aaaa'', ''aaaa'']], current = overlap_seed 2 [''aaaa'', ''aaaa'', ''aaaa'', ''aaaa'', ''aaaa'', ''aaaa'', ''aaaa'', ''aaaa'', ''aaaa'', ''aaaa''] @ [''aaaa''],
        current_tokens = tally (overlap_seed 2 [''aaaa'', ''aaaa'', ''aaaa'', ''aaaa'', ''aaaa'', ''aaaa'', ''aaaa'', ''aaaa'', ''aaaa'', ''aaaa'']) + approx_tokens ''aaaa'' \<rparr>"
    by simp
  then have step: "window_para 10 2 (foldl (window_para 10 2) windows_init [''aaaa'', ''aaaa'', ''aaaa'', ''aaaa'', ''aaaa'', ''aaaa'', ''aaaa'', ''aaaa'', ''aaaa'', ''aaaa'']) ''aaaa'' =
      \<lparr> windows = [''aaaa\<newline>\<newline>aaaa\<newline>\<newline>aaaa\<newline>\<newline>aaaa\<newline>\<newline>aaaa\<newline>\<newline>aaaa\<newline>\<newline>aaaa\<newline>\<newline>aaaa\<newline>\<newline>aaaa\<newline>\<newline>aaaa''], current = [''aaaa'', ''aaaa'', ''aaaa''], current_tokens = 3 \<rparr>"
    unfolding st seed by (simp add: wt tal para)
  have cur: "current (foldl (window_para 10 2) windows_init [''aaaa'', ''aaaa'', ''aaaa'', ''aaaa'', ''aaaa'', ''aaaa'', ''aaaa'', ''aaaa'', ''aaaa'', ''aaaa'']) = [''aaaa'', ''aaaa'', ''aaaa'', ''aaaa'', ''aaaa'', ''aaaa'', ''aaaa'', ''aaaa'', ''aaaa'', ''aaaa'']"
    "current_tokens (foldl (window_para 10 2) windows_init [''aaaa'', ''aaaa'', ''aaaa'', ''aaaa'', ''aaaa'', ''aaaa'', ''aaaa'', ''aaaa'', ''aaaa'', ''aaaa'']) = 10"
    unfolding st by simp_all
  have tl: "tl [''aaaa'', ''aaaa''] \<noteq> []" "tally (tl [''aaaa'', ''aaaa'']) < 2"
    using tal by simp_all
  from doc ws bufs second suf cur para step seed tl show ?thesis
    by - (intro conjI; assumption)
qed

section \<open>The chunk writer on documents that are not blank\<close>

text \<open>
  Claim C7.  For every document whose markdown is not blank, \<open>generate_chunks_jsonl\<close>
  returns a count of at least 1.  The count already comes from the header-derived
  sections: each of them has a text that is not blank, and every such text yields a window
  that is not blank.  The branch that re-windows the whole document runs when the sections
  gave no chunk and the markdown is not blank, and the loop of that branch writes every
  chunk with the section \<open>""\<close>.  For the input without headers of the scenario, with
  target 20 and overlap 5, one chunk is written, with \<open>meta.section = ""\<close>.
\<close>

theorem chunk_writer_nonempty:
  "(strip markdown \<noteq> [] \<longrightarrow>
      1 \<le> fst (generate_chunks_jsonl (Some markdown) doc_id target_tokens overlap_tokens)
      \<and> 1 \<le> fst (foldl (write_section doc_id target_tokens overlap_tokens) (0, []) (iter_sections markdown)))
   \<and> generate_chunks_jsonl (Some markdown) doc_id target_tokens overlap_tokens =
       (if fst (foldl (write_section doc_id target_tokens overlap_tokens) (0, []) (iter_sections markdown)) = 0
           \<and> strip markdown \<noteq> []
        then (fst (foldl (write_window doc_id [])
                     (foldl (write_section doc_id target_tokens overlap_tokens) (0, []) (iter_sections markdown))
                     (split_to_token_windows markdown target_tokens overlap_tokens)),
              Some (snd (foldl (write_window doc_id [])
                     (foldl (write_section doc_id target_tokens overlap_tokens) (0, []) (iter_sections markdown))
                     (split_to_token_windows markdown target_tokens overlap_tokens))))
        else (fst (foldl (write_section doc_id target_tokens overlap_tokens) (0, []) (iter_sections markdown)),
              Some (snd (foldl (write_section doc_id target_tokens overlap_tokens) (0, []) (iter_sections markdown)))))
   \<and> (\<forall>c\<in>set (snd (foldl (write_window doc_id []) (0, []) ws)). meta_section c = [])
   \<and> generate_chunks_jsonl (Some ''First paragraph.\<newline>\<newline>Second paragraph.\<newline>\<newline>Third.'') doc_id 20 5 =
       (1, Some [\<lparr> chunk_id = doc_id @ ''_0'',
                   chunk_text = ''First paragraph.\<newline>\<newline>Second paragraph.\<newline>\<newline>Third.'',
                   meta_doc_id = doc_id, meta_section = [] \<rparr>])"
proof -
  let ?main = "foldl (write_section doc_id target_tokens overlap_tokens) (0, []) (iter_sections markdown)"
  have unfold: "generate_chunks_jsonl (Some markdown) doc_id target_tokens overlap_tokens =
       (if fst ?main = 0 \<and> strip markdown \<noteq> []
        then (fst (foldl (write_window doc_id []) ?main
                     (split_to_token_windows markdown target_tokens overlap_tokens)),
              Some (snd (foldl (write_window doc_id []) ?main
                     (split_to_token_windows markdown target_tokens overlap_tokens))))
        else (fst ?main, Some (snd ?main)))"
    by (simp add: generate_chunks_jsonl_def Let_def)
  have count: "strip markdown \<noteq> [] \<longrightarrow>
      1 \<le> fst (generate_chunks_jsonl (Some markdown) doc_id target_tokens overlap_tokens) \<and> 1 \<le> fst ?main"
  proof
    assume ne: "strip markdown \<noteq> []"
    then have "1 \<le> fst ?main" by (rule sections_yield_chunk)
    then show "1 \<le> fst (generate_chunks_jsonl (Some markdown) doc_id target_tokens overlap_tokens) \<and> 1 \<le> fst ?main"
      unfolding unfold by simp
  qed
  have label: "\<forall>c\<in>set (snd (foldl (write_window doc_id []) (0, []) ws)). meta_section c = []"
    by (rule foldl_write_window_section) simp
  from count unfold label no_headers_chunks [of doc_id] show ?thesis
    by - (intro conjI; assumption)
qed


text \<open>
  A document with a header: its one section gives the one chunk.  The loop of the
  re-windowing branch, run on three windows of which the second is blank, writes two
  chunks with the section \<open>""\<close>.
\<close>

theorem chunk_writer_nonempty_witness:
  "strip ''# T\<newline>\<newline>body'' \<noteq> []
   \<and> 1 \<le> fst (generate_chunks_jsonl (Some ''# T\<newline>\<newline>body'') ''d'' 1000 120)
   \<and> generate_chunks_jsonl (Some ''# T\<newline>\<newline>body'') ''d'' 1000 120 =
        (1, Some [\<lparr> chunk_id = ''d_0'', chunk_text = ''# T\<newline>\<newline>body'',
                    meta_doc_id = ''d'', meta_section = ''T'' \<rparr>])
   \<and> snd (foldl (write_window ''d'' []) (0, []) [''x'', '' '', ''y'']) =
        [\<lparr> chunk_id = ''d_0'', chunk_text = ''x'', meta_doc_id = ''d'', meta_section = [] \<rparr>,
         \<lparr> chunk_id = ''d_1'', chunk_text = ''y'', meta_doc_id = ''d'', meta_section = [] \<rparr>]"
proof -
  note inst = chunk_writer_nonempty [where markdown = "''# T\<newline>\<newline>body''" and doc_id = "''d''"
      and target_tokens = 1000 and overlap_tokens = 120 and ws = "[''x'', '' '', ''y'']"]
  have ne: "strip ''# T\<newline>\<newline>body'' \<noteq> []"
    by code_simp
  from inst ne have count: "1 \<le> fst (generate_chunks_jsonl (Some ''# T\<newline>\<newline>body'') ''d'' 1000 120)"
    by blast
  have val: "generate_chunks_jsonl (Some ''# T\<newline>\<newline>body'') ''d'' 1000 120 =
        (1, Some [\<lparr> chunk_id = ''d_0'', chunk_text = ''# T\<newline>\<newline>body'',
                    meta_doc_id = ''d'', meta_section = ''T'' \<rparr>])"
    by code_simp
  have fb: "snd (foldl (write_window ''d'' []) (0, []) [''x'', '' '', ''y'']) =
        [\<lparr> chunk_id = ''d_0'', chunk_text = ''x'', meta_doc_id = ''d'', meta_section = [] \<rparr>,
         \<lparr> chunk_id = ''d_1'', chunk_text = ''y'', meta_doc_id = ''d'', meta_section = [] \<rparr>]"
    by code_simp
  from ne count val fb show ?thesis
    by - (intro conjI; assumption)
qed

section \<open>The artifact prefix\<close>

lemma sanitize_scenarios:
  "sanitize_stem ''Hydraulics Manual v3.pdf'' = ''Hydraulics_Manual_v3''"
  "sanitize_stem ''...pdf'' = ''document''"
  "path_stem ''...pdf'' = ''..''"
  by code_simp+

text \<open>
  Claim C8, as stated, fails.  For \<open>x__y__.pdf\<close> the steps of the claim give \<open>x_y_\<close>
  (nothing in them removes a trailing underscore), and the source returns \<open>x_y\<close>, as its
  test \<open>test_sanitize_stem_collapse_underscores\<close> expects.  For \<open>.hidden.pdf\<close> the steps
  give \<open>.hidden\<close> and the source returns \<open>document\<close>.  For 80 hyphens followed by
  \<open>a.pdf\<close> the truncated result is all punctuation, and the source returns the 80 hyphens.
\<close>

theorem artifact_prefix_counterexample:
  "sanitize_stem_spec ''x__y__.pdf'' = ''x_y_''
   \<and> sanitize_stem ''x__y__.pdf'' = ''x_y''
   \<and> sanitize_stem ''x__y__.pdf'' \<noteq> sanitize_stem_spec ''x__y__.pdf''
   \<and> sanitize_stem_spec ''.hidden.pdf'' = ''.hidden''
   \<and> sanitize_stem ''.hidden.pdf'' = ''document''
   \<and> sanitize_stem_spec ''--------------------------------------------------------------------------------a.pdf'' = ''document''
   \<and> sanitize_stem ''--------------------------------------------------------------------------------a.pdf'' = ''--------------------------------------------------------------------------------''"
  by (intro conjI; code_simp)

text \<open>
  Claim C8, amended.  For every filename, let the stem be the last path component without
  its last extension, trimmed of surrounding whitespace.  If the stem is empty or starts
  with a dot, the prefix is \<open>document\<close>.  Otherwise every character outside
  \<open>[A-Za-z0-9._-]\<close> (whitespace included) is replaced by an underscore, runs of underscores
  are collapsed to one, and leading and trailing underscores are removed; if the result is
  empty or has no alphanumeric character the prefix is \<open>document\<close>, otherwise it is the
  first 80 characters of the result.  The prefix is never empty, has at most 80
  characters, and all of them are in \<open>[A-Za-z0-9._-]\<close>.  \<open>Hydraulics Manual v3.pdf\<close> maps
  to \<open>Hydraulics_Manual_v3\<close>, and \<open>...pdf\<close> (stem \<open>..\<close>) maps to \<open>document\<close>.
\<close>

theorem artifact_prefix:
  "sanitize_stem filename = sanitize_stem_amended filename
   \<and> sanitize_stem filename \<noteq> []
   \<and> length (sanitize_stem filename) \<le> 80
   \<and> (\<forall>c\<in>set (sanitize_stem filename). in_class c)
   \<and> sanitize_stem ''Hydraulics Manual v3.pdf'' = ''Hydraulics_Manual_v3''
   \<and> sanitize_stem ''...pdf'' = ''document''"
  using sanitize_stem_amended_safe [of filename]
  by (simp add: sanitize_stem_eq_amended [symmetric] sanitize_scenarios)

theorem artifact_prefix_witness:
  "sanitize_stem '' my  file (2).tar.gz'' = ''my_file_2_.tar''
   \<and> sanitize_stem_amended '' my  file (2).tar.gz'' = ''my_file_2_.tar''
   \<and> in_class (CHR ''m'') \<and> in_class (CHR ''_'') \<and> in_class (CHR ''2'') \<and> in_class (CHR ''.'')"
proof -
  have val: "sanitize_stem '' my  file (2).tar.gz'' = ''my_file_2_.tar''"
    by code_simp
  from artifact_prefix [of "'' my  file (2).tar.gz''"]
  show ?thesis unfolding val by simp
qed

section \<open>Serving an artifact\<close>

text \<open>
  What the guards of \<open>get_artifact_path\<close> do establish: a path is returned only for a
  filename that is not empty and holds no \<open>..\<close>, slash or backslash; the path is a
  regular file, and its string starts with the string of the resolved output directory.
\<close>

lemma artifact_path_guards:
  assumes "get_artifact_path fs OUTPUTS_DIR job_id filename = Inr (Some p)"
  shows "filename \<noteq> [] \<and> \<not> contains ''..'' filename \<and> \<not> contains ''/'' filename
         \<and> \<not> contains [CHR 0x5C] filename
         \<and> is_file fs p
         \<and> (\<exists>od. resolve fs (joinpath OUTPUTS_DIR job_id) = Some od
                  \<and> prefix (path_str od) (path_str p))"
  using assms
  by (auto simp: get_artifact_path_def Let_def split: if_splits option.splits)

text \<open>
  Claim C10 against the source.  The test that the resolved path lies in the output
  directory compares strings: \<open>str(path).startswith(str(od.resolve()))\<close>.  The directory
  of a sibling job whose name continues the name of this job passes it.  With
  \<open>OUTPUTS_DIR = /data/outputs\<close> and a link \<open>latest.md\<close> in the directory of \<open>job-1\<close>
  that points to \<open>/data/outputs/job-10/b.document.md\<close>, the request for \<open>latest.md\<close> of
  \<open>job-1\<close> returns that file of \<open>job-10\<close>: the string \<open>/data/outputs/job-1\<close> is a prefix
  of the string of the result, and the directory \<open>/data/outputs/job-1\<close> does not contain
  it.
\<close>

theorem artifact_path_sibling_prefix:
  "get_artifact_path linked_fs [''data'', ''outputs''] ''job-1'' ''latest.md'' =
     Inr (Some [''data'', ''outputs'', ''job-10'', ''b.document.md''])
   \<and> resolve linked_fs (joinpath [''data'', ''outputs''] ''job-1'') =
       Some [''data'', ''outputs'', ''job-1'']
   \<and> prefix (path_str [''data'', ''outputs'', ''job-1''])
       (path_str [''data'', ''outputs'', ''job-10'', ''b.document.md''])
   \<and> \<not> prefix [''data'', ''outputs'', ''job-1''] [''data'', ''outputs'', ''job-10'', ''b.document.md'']
   \<and> get_artifact_path linked_fs [''data'', ''outputs''] ''job-1'' ''a.document.md'' =
       Inr (Some [''data'', ''outputs'', ''job-1'', ''a.document.md''])
   \<and> get_artifact_path linked_fs [''data'', ''outputs''] ''job-1'' ''../job-10/b.document.md'' = Inr None"
  by (intro conjI; code_simp)

section \<open>The guard against concurrent extraction\<close>

lemma sanitize_report: "sanitize_stem ''report.txt'' = ''report''"
  by code_simp

text \<open>
  Claim C2, as stated, fails.  \<open>extract_job\<close> looks for the upload before it consults
  the guard and raises \<open>HTTPException(404)\<close> when there is none.  A request for the job
  \<open>j1\<close>, which is in the guard, after the storage has been cleaned is answered with 404,
  not with \<open>already in progress\<close>; and a request for a job \<open>j2\<close> that is not in the guard
  and has no upload does not insert it.
\<close>

theorem extraction_guard_counterexample:
  "''j1'' \<in> extracting cleaned_server
   \<and> extract_job ''j1'' None cleaned_server = (Inl (HTTPException 404), cleaned_server)
   \<and> ''j2'' \<notin> extracting idle_server
   \<and> fst (extract_job ''j2'' None idle_server) = Inl (HTTPException 404)
   \<and> ''j2'' \<notin> extracting (snd (extract_job ''j2'' None idle_server))"
  by (simp add: extract_job_def get_uploaded_file_path_def cleaned_server_def idle_server_def)

text \<open>
  Claim C2, amended.  A request for a job without an upload is answered with 404 and
  changes nothing, the guard included.  A request for a job that has an upload and is in
  the guard returns the response \<open>already in progress\<close>; the only effect is that the
  output directory exists afterwards: nothing is written, no thread is started and the
  guard is unchanged.  A request for a job that has an upload and is not in the guard puts
  it in the guard, in the same step as the test.  In every state the service reaches from
  one without threads, by requests, ends of supervising threads and changes of the data
  root in any order, no job has more than one supervising thread alive.
\<close>

theorem extraction_guard:
  "(get_uploaded_file_path job_id (disk srv) = None \<longrightarrow>
      extract_job job_id body srv = (Inl (HTTPException 404), srv))
   \<and> (get_uploaded_file_path job_id (disk srv) = Some input_name \<and> job_id \<in> extracting srv \<longrightarrow>
      extract_job job_id body srv =
        (Inr (ExtractionSummary job_id True
                ''Extraction already in progress. Poll /job/{id}/progress for status.'' []),
         srv \<lparr> disk := job_output_dir job_id (disk srv) \<rparr>)
      \<and> trace (snd (extract_job job_id body srv)) = trace srv
      \<and> threads (snd (extract_job job_id body srv)) = threads srv
      \<and> extracting (snd (extract_job job_id body srv)) = extracting srv
      \<and> outputs (disk (snd (extract_job job_id body srv))) job_id =
          Some (case outputs (disk srv) job_id of None \<Rightarrow> [] | Some d \<Rightarrow> d))
   \<and> (get_uploaded_file_path job_id (disk srv) = Some input_name \<and> job_id \<notin> extracting srv \<longrightarrow>
        extracting (snd (extract_job job_id body srv)) = insert job_id (extracting srv))
   \<and> (threads srv0 = [] \<longrightarrow>
        length (filter (\<lambda>t. fst t = job_id) (threads (foldl sys_step srv0 acts))) \<le> 1)"
proof -
  have 0: "get_uploaded_file_path job_id (disk srv) = None \<longrightarrow>
      extract_job job_id body srv = (Inl (HTTPException 404), srv)"
    by (simp add: extract_job_def)
  have 1: "get_uploaded_file_path job_id (disk srv) = Some input_name \<and> job_id \<in> extracting srv \<longrightarrow>
      extract_job job_id body srv =
        (Inr (ExtractionSummary job_id True
                ''Extraction already in progress. Poll /job/{id}/progress for status.'' []),
         srv \<lparr> disk := job_output_dir job_id (disk srv) \<rparr>)
      \<and> trace (snd (extract_job job_id body srv)) = trace srv
      \<and> threads (snd (extract_job job_id body srv)) = threads srv
      \<and> extracting (snd (extract_job job_id body srv)) = extracting srv
      \<and> outputs (disk (snd (extract_job job_id body srv))) job_id =
          Some (case outputs (disk srv) job_id of None \<Rightarrow> [] | Some d \<Rightarrow> d)"
    by (simp add: extract_job_in_progress job_output_dir_def)
  have 2: "get_uploaded_file_path job_id (disk srv) = Some input_name \<and> job_id \<notin> extracting srv \<longrightarrow>
        extracting (snd (extract_job job_id body srv)) = insert job_id (extracting srv)"
    using extract_job_new [of job_id srv input_name body] by blast
  have 3: "threads srv0 = [] \<longrightarrow>
        length (filter (\<lambda>t. fst t = job_id) (threads (foldl sys_step srv0 acts))) \<le> 1"
  proof
    assume "threads srv0 = []"
    then have "guard_inv srv0" by (simp add: guard_inv_def)
    then have "guard_inv (foldl sys_step srv0 acts)" by (rule guard_inv_run)
    then show "length (filter (\<lambda>t. fst t = job_id) (threads (foldl sys_step srv0 acts))) \<le> 1"
      by (rule guard_inv_one_thread)
  qed
  from 0 1 2 3 show ?thesis by - (intro conjI; assumption)
qed


text \<open>
  The job \<open>j1\<close>: a request while its thread is alive, a request on the idle service, and
  two requests in a row, which start one thread.
\<close>

theorem extraction_guard_witness:
  "get_uploaded_file_path ''j2'' (disk idle_server) = None
   \<and> fst (extract_job ''j2'' None idle_server) = Inl (HTTPException 404)
   \<and> extracting (snd (extract_job ''j2'' None idle_server)) = {}
   \<and> get_uploaded_file_path ''j1'' (disk (started_server False)) = Some ''report.txt''
   \<and> ''j1'' \<in> extracting (started_server False)
   \<and> fst (extract_job ''j1'' None (started_server False)) =
       Inr (ExtractionSummary ''j1'' True
              ''Extraction already in progress. Poll /job/{id}/progress for status.'' [])
   \<and> trace (snd (extract_job ''j1'' None (started_server False))) = []
   \<and> threads (snd (extract_job ''j1'' None (started_server False))) = [(''j1'', ''report.txt'', ''report'')]
   \<and> extracting (snd (extract_job ''j1'' None (started_server False))) = {''j1''}
   \<and> outputs (disk (snd (extract_job ''j1'' None (started_server False)))) ''j1'' =
       outputs (started_disk False) ''j1''
   \<and> get_uploaded_file_path ''j1'' (disk idle_server) = Some ''report.txt''
   \<and> ''j1'' \<notin> extracting idle_server
   \<and> extracting (snd (extract_job ''j1'' None idle_server)) = {''j1''}
   \<and> threads idle_server = []
   \<and> threads (foldl sys_step idle_server [Request ''j1'' None, Request ''j1'' (Some [])]) =
       [(''j1'', ''report.txt'', ''report'')]
   \<and> length (filter (\<lambda>t. fst t = ''j1'')
         (threads (foldl sys_step idle_server [Request ''j1'' None, Request ''j1'' (Some [])]))) \<le> 1"
proof -
  note busy = extraction_guard [where job_id = "''j1''" and srv = "started_server False"
      and input_name = "''report.txt''" and body = None and ?srv0.0 = idle_server
      and acts = "[Request ''j1'' None, Request ''j1'' (Some [])]"]
  note idle = extraction_guard [where job_id = "''j1''" and srv = idle_server
      and input_name = "''report.txt''" and body = None and ?srv0.0 = idle_server and acts = "[]"]
  note missing = extraction_guard [where job_id = "''j2''" and srv = idle_server
      and input_name = "''report.txt''" and body = None and ?srv0.0 = idle_server and acts = "[]"]
  have up0: "get_uploaded_file_path ''j2'' (disk idle_server) = None"
    by (simp add: get_uploaded_file_path_def idle_server_def)
  from missing up0 have m: "extract_job ''j2'' None idle_server = (Inl (HTTPException 404), idle_server)"
    by blast
  have m1: "fst (extract_job ''j2'' None idle_server) = Inl (HTTPException 404)"
    by (simp add: m)
  have m2: "extracting (snd (extract_job ''j2'' None idle_server)) = {}"
    unfolding m by (simp add: idle_server_def)
  have up1: "get_uploaded_file_path ''j1'' (disk (started_server False)) = Some ''report.txt''"
    by (simp add: get_uploaded_file_path_def started_server_def started_disk_def)
  have in1: "''j1'' \<in> extracting (started_server False)"
    by (simp add: started_server_def)
  from busy up1 in1 have b: "extract_job ''j1'' None (started_server False) =
        (Inr (ExtractionSummary ''j1'' True
                ''Extraction already in progress. Poll /job/{id}/progress for status.'' []),
         (started_server False) \<lparr> disk := job_output_dir ''j1'' (disk (started_server False)) \<rparr>)"
      "trace (snd (extract_job ''j1'' None (started_server False))) = trace (started_server False)"
      "threads (snd (extract_job ''j1'' None (started_server False))) = threads (started_server False)"
      "extracting (snd (extract_job ''j1'' None (started_server False))) = extracting (started_server False)"
      "outputs (disk (snd (extract_job ''j1'' None (started_server False)))) ''j1'' =
          Some (case outputs (disk (started_server False)) ''j1'' of None \<Rightarrow> [] | Some d \<Rightarrow> d)"
    by blast+
  have r1: "fst (extract_job ''j1'' None (started_server False)) =
       Inr (ExtractionSummary ''j1'' True
              ''Extraction already in progress. Poll /job/{id}/progress for status.'' [])"
    by (simp add: b(1))
  have r2: "trace (snd (extract_job ''j1'' None (started_server False))) = []"
    using b(2) by (simp add: started_server_def)
  have r3: "threads (snd (extract_job ''j1'' None (started_server False))) = [(''j1'', ''report.txt'', ''report'')]"
    using b(3) by (simp add: started_server_def)
  have r4: "extracting (snd (extract_job ''j1'' None (started_server False))) = {''j1''}"
    using b(4) by (simp add: started_server_def)
  have r5: "outputs (disk (snd (extract_job ''j1'' None (started_server False)))) ''j1'' =
       outputs (started_disk False) ''j1''"
    using b(5) by (simp add: started_server_def started_disk_def)
  have up2: "get_uploaded_file_path ''j1'' (disk idle_server) = Some ''report.txt''"
    by (simp add: get_uploaded_file_path_def idle_server_def)
  have out2: "''j1'' \<notin> extracting idle_server"
    by (simp add: idle_server_def)
  from idle up2 out2 have "extracting (snd (extract_job ''j1'' None idle_server)) =
      insert ''j1'' (extracting idle_server)"
    by blast
  then have r6: "extracting (snd (extract_job ''j1'' None idle_server)) = {''j1''}"
    by (simp add: idle_server_def)
  have th0: "threads idle_server = []"
    by (simp add: idle_server_def)
  from busy th0 have r8: "length (filter (\<lambda>t. fst t = ''j1'')
         (threads (foldl sys_step idle_server [Request ''j1'' None, Request ''j1'' (Some [])]))) \<le> 1"
    by blast
  have t1: "threads (snd (extract_job ''j1'' None idle_server)) = [(''j1'', ''report.txt'', ''report'')]"
    by (simp add: extract_job_def idle_server_def get_uploaded_file_path_def job_output_dir_def
        write_text_def write_metadata_def Let_def sanitize_report)
  have u1: "get_uploaded_file_path ''j1'' (disk (snd (extract_job ''j1'' None idle_server))) =
      Some ''report.txt''"
    by (simp add: extract_job_def idle_server_def get_uploaded_file_path_def job_output_dir_def
        write_text_def write_metadata_def Let_def sanitize_report)
  have e1: "''j1'' \<in> extracting (snd (extract_job ''j1'' None idle_server))"
    by (simp add: r6)
  have "threads (snd (extract_job ''j1'' (Some []) (snd (extract_job ''j1'' None idle_server)))) =
      threads (snd (extract_job ''j1'' None idle_server))"
    by (simp add: extract_job_in_progress [OF u1 e1])
  then have r7: "threads (foldl sys_step idle_server [Request ''j1'' None, Request ''j1'' (Some [])]) =
       [(''j1'', ''report.txt'', ''report'')]"
    by (simp add: sys_step_def t1)
  from up0 m1 m2 up1 in1 r1 r2 r3 r4 r5 up2 out2 r6 th0 r7 r8 show ?thesis
    by - (intro conjI; assumption)
qed

section \<open>The release of the guard by the supervising thread\<close>

text \<open>
  Claim C1 against the source.  The three releases of \<open>_extracting\<close> stand at the end of
  the three paths, after the writes, and no \<open>finally\<close> covers them.  The job \<open>j1\<close> is
  in the guard and its thread runs; the disk is full; the worker times out.  The fallback
  cannot write its document, \<open>write_metadata\<close> raises \<open>OSError\<close> inside the \<open>except\<close>
  block, and the thread ends with that exception: the guard is not released and no
  terminal metadata is written.  Once the thread is gone, a new request for \<open>j1\<close> is
  answered with \<open>already in progress\<close>, and no thread is started.  With the same run on
  a disk that is not full, the metadata is written and the guard is released after it.
\<close>

theorem supervisor_guard_not_released:
  "fst (run_extraction_background (\<lambda>fs. (TimeoutExpired, fs)) ''j1'' ''report.txt'' ''report''
         (started_server True)) = Inl OSError
   \<and> ''j1'' \<in> extracting (snd (run_extraction_background (\<lambda>fs. (TimeoutExpired, fs))
                                ''j1'' ''report.txt'' ''report'' (started_server True)))
   \<and> trace (snd (run_extraction_background (\<lambda>fs. (TimeoutExpired, fs))
                    ''j1'' ''report.txt'' ''report'' (started_server True))) =
       [WorkerRun ''j1'', FallbackRun ''j1'']
   \<and> threads (foldl sys_step (started_server True) [ThreadEnds 0 (\<lambda>fs. (TimeoutExpired, fs))]) = []
   \<and> fst (extract_job ''j1'' None
            (foldl sys_step (started_server True) [ThreadEnds 0 (\<lambda>fs. (TimeoutExpired, fs))])) =
       Inr (ExtractionSummary ''j1'' True
              ''Extraction already in progress. Poll /job/{id}/progress for status.'' [])
   \<and> threads (snd (extract_job ''j1'' None
            (foldl sys_step (started_server True) [ThreadEnds 0 (\<lambda>fs. (TimeoutExpired, fs))]))) = []
   \<and> fst (run_extraction_background (\<lambda>fs. (TimeoutExpired, fs)) ''j1'' ''report.txt'' ''report''
           (started_server False)) = Inr ()
   \<and> ''j1'' \<notin> extracting (snd (run_extraction_background (\<lambda>fs. (TimeoutExpired, fs))
                                ''j1'' ''report.txt'' ''report'' (started_server False)))
   \<and> trace (snd (run_extraction_background (\<lambda>fs. (TimeoutExpired, fs))
                    ''j1'' ''report.txt'' ''report'' (started_server False))) =
       [WorkerRun ''j1'', FallbackRun ''j1'', MetadataWritten ''j1'' ''completed'', GuardReleased ''j1'']"
  by (intro conjI; code_simp)

section \<open>The exit code of the worker\<close>

text \<open>
  Claim C3 against the source.  \<open>_run_extraction_background\<close> assigns the exit code of
  the worker to \<open>exit_code\<close> and never reads it: a run after any exit code is the run after
  exit code 0, and no run after an exit runs the fallback.  The worker of the job \<open>j1\<close>
  exits with code 1 and has written nothing (its imports failed, or it was killed): the
  supervising thread finds the metadata that \<open>extract_job\<close> wrote, takes it for output,
  writes nothing and releases the guard; the metadata keeps the status \<open>extracting\<close>.  An
  exception of the invocation of the worker does run the fallback.
\<close>

theorem exit_code_not_read:
  "run_extraction_background (\<lambda>fs. (Exited code, after fs)) job_id input_name prefix' srv =
     run_extraction_background (\<lambda>fs. (Exited 0, after fs)) job_id input_name prefix' srv
   \<and> FallbackRun job_id \<notin> set (drop (length (trace srv))
        (trace (snd (run_extraction_background (\<lambda>fs. (Exited code, after fs))
                       job_id input_name prefix' srv))))
   \<and> fst (run_extraction_background (\<lambda>fs. (Exited 1, fs)) ''j1'' ''report.txt'' ''report''
           (started_server False)) = Inr ()
   \<and> trace (snd (run_extraction_background (\<lambda>fs. (Exited 1, fs)) ''j1'' ''report.txt'' ''report''
                    (started_server False))) =
       [WorkerRun ''j1'', GuardReleased ''j1'']
   \<and> outputs (disk (snd (run_extraction_background (\<lambda>fs. (Exited 1, fs)) ''j1'' ''report.txt''
                            ''report'' (started_server False)))) ''j1'' =
       Some [(''processing_request.json'', ConfigJson []),
             (''report.metadata.json'',
                MetadataJson \<lparr> m_job_id = ''j1'', m_filename = ''report.txt'', m_status = ''extracting'',
                               m_artifact_prefix = Some ''report'', m_artifacts = [], m_stats = [],
                               m_error = None, m_created_at = None \<rparr>)]
   \<and> trace (snd (run_extraction_background (\<lambda>fs. (Raised ''boom'', fs)) ''j1'' ''report.txt''
                    ''report'' (started_server False))) =
       [WorkerRun ''j1'', FallbackRun ''j1'', MetadataWritten ''j1'' ''completed'', GuardReleased ''j1'']"
proof -
  have general: "run_extraction_background (\<lambda>fs. (Exited code, after fs)) job_id input_name prefix' srv =
      run_extraction_background (\<lambda>fs. (Exited 0, after fs)) job_id input_name prefix' srv"
    by (rule exit_code_ignored)
  have none: "FallbackRun job_id \<notin> set (drop (length (trace srv))
        (trace (snd (run_extraction_background (\<lambda>fs. (Exited code, after fs))
                       job_id input_name prefix' srv))))"
    by (rule exited_no_fallback)
  have run1: "fst (run_extraction_background (\<lambda>fs. (Exited 1, fs)) ''j1'' ''report.txt'' ''report''
           (started_server False)) = Inr ()"
    by code_simp
  have run2: "trace (snd (run_extraction_background (\<lambda>fs. (Exited 1, fs)) ''j1'' ''report.txt'' ''report''
                    (started_server False))) =
       [WorkerRun ''j1'', GuardReleased ''j1'']"
    by code_simp
  have run3: "outputs (disk (snd (run_extraction_background (\<lambda>fs. (Exited 1, fs)) ''j1'' ''report.txt''
                            ''report'' (started_server False)))) ''j1'' =
       Some [(''processing_request.json'', ConfigJson []),
             (''report.metadata.json'',
                MetadataJson \<lparr> m_job_id = ''j1'', m_filename = ''report.txt'', m_status = ''extracting'',
                               m_artifact_prefix = Some ''report'', m_artifacts = [], m_stats = [],
                               m_error = None, m_created_at = None \<rparr>)]"
    by code_simp
  have run4: "trace (snd (run_extraction_background (\<lambda>fs. (Raised ''boom'', fs)) ''j1'' ''report.txt''
                    ''report'' (started_server False))) =
       [WorkerRun ''j1'', FallbackRun ''j1'', MetadataWritten ''j1'' ''completed'', GuardReleased ''j1'']"
    by code_simp
  from general none run1 run2 run3 run4 show ?thesis
    by - (intro conjI; assumption)
qed

end
